theory Spec2Isabelle
  imports Main
begin

section \<open>SimpleVector: a resizable array over a manually managed buffer\<close>

text \<open>
  The development embeds \<^verbatim>\<open>simple-vector/simple_vector.h\<close>. A \<^verbatim>\<open>SimpleVector<Type>\<close>
  object is a record of its three private members. Objects live at locations (\<open>vid\<close>),
  so that \<^verbatim>\<open>this != &rhs\<close> can be decided, and the arrays they own live in an
  explicit store of buffers, so that buffer identity, reallocation and release are
  visible. Every member function takes the state and returns the new one; an
  exception, a failed \<^verbatim>\<open>assert\<close> (the assertions are compiled in) and undefined
  behaviour are values of \<open>error\<close>.

  Elements are values: a copy and a move both leave the value in the destination.
  What a move leaves in its source is not modelled where the source is a slot that is
  dead afterwards or lies in an array that is released, which is every move of the
  source but those of \<^verbatim>\<open>SimpleVector(size_t, Type&&)\<close>; no member function reads such
  a slot before writing it.
\<close>

subsection \<open>Errors\<close>

datatype error =
    OutOfMemory          \<comment> \<open>\<^verbatim>\<open>new Type[n]\<close> cannot be satisfied\<close>
  | IndexOutOfRange      \<comment> \<open>\<^verbatim>\<open>std::out_of_range\<close>, thrown by \<^verbatim>\<open>At\<close>\<close>
  | AssertionFailed      \<comment> \<open>an \<^verbatim>\<open>assert\<close> of the source does not hold\<close>
  | UndefinedBehaviour   \<comment> \<open>a read or write outside an allocated array, or of an uninitialised slot\<close>

definition bind_err :: "error + 'a \<Rightarrow> ('a \<Rightarrow> error + 'b) \<Rightarrow> error + 'b" where
  "bind_err m f = (case m of Inl e \<Rightarrow> Inl e | Inr x \<Rightarrow> f x)"

subsection \<open>Machine sizes\<close>

text \<open>
  \<^verbatim>\<open>size_t\<close> is 64 bits wide. Sizes are natural numbers and the two places where the
  source's arithmetic can wrap (\<^verbatim>\<open>capacity_ * 2\<close> and \<^verbatim>\<open>++size_\<close>) go through \<open>size_t\<close>.
\<close>

definition size_t :: "nat \<Rightarrow> nat" where
  "size_t n = n mod 2 ^ 64"

subsection \<open>The state: objects and buffers\<close>

type_synonym addr = nat
type_synonym vid = nat

text \<open>A pointer into an array: the array (\<open>None\<close> is \<^verbatim>\<open>nullptr\<close>) and the offset in it.\<close>

type_synonym ptr = "addr option \<times> nat"

record SimpleVector =
  v_data_ptr :: "addr option"
  v_size :: nat
  v_capacity :: nat

text \<open>
  A buffer is a list of slots; \<open>None\<close> is a slot that has been allocated and never
  written. \<open>bufs s a = None\<close> says that no array is allocated at \<open>a\<close>.
\<close>

record 'a state =
  bufs :: "addr \<Rightarrow> 'a option list option"
  next_addr :: addr
  vecs :: "vid \<Rightarrow> SimpleVector"

definition empty_vec :: SimpleVector where
  "empty_vec = \<lparr>v_data_ptr = None, v_size = 0, v_capacity = 0\<rparr>"

text \<open>The state before anything is constructed: no array, every location unused.\<close>

definition init_state :: "'a state" where
  "init_state = \<lparr>bufs = (\<lambda>a. None), next_addr = 0, vecs = (\<lambda>i. empty_vec)\<rparr>"

definition set_vec :: "vid \<Rightarrow> SimpleVector \<Rightarrow> 'a state \<Rightarrow> 'a state" where
  "set_vec this v s = s\<lparr>vecs := (vecs s)(this := v)\<rparr>"

subsection \<open>ArrayPtr\<close>

text \<open>
  Modelled from the spec: \<^verbatim>\<open>array_ptr.h\<close> (the class \<^verbatim>\<open>ArrayPtr\<close>, the spec's RawBuffer)
  is not among the sources. The spec gives its contract: \<open>allocate(n)\<close> returns a handle
  to \<open>n\<close> uninitialised slots and fails with OutOfMemory when the allocation cannot be
  satisfied; a buffer of capacity 0 holds no allocation; \<open>index(i)\<close> is undefined for
  \<open>i \<ge> n\<close>; \<open>release\<close> deallocates and is a no-op on an empty handle; \<open>exchange\<close> swaps
  two handles. No array can have more than \<open>max_slots\<close> elements (\<^verbatim>\<open>PTRDIFF_MAX\<close> bytes
  on a 64-bit target), so a larger request fails; every other request is taken to
  succeed, at an address never used before.
\<close>

definition max_slots :: nat where
  "max_slots = 2 ^ 63 - 1"

definition ArrayPtr_new :: "nat \<Rightarrow> 'a state \<Rightarrow> error + (addr option \<times> 'a state)" where
  "ArrayPtr_new n s =
     (if n = 0 then Inr (None, s)
      else if max_slots < n then Inl OutOfMemory
      else Inr (Some (next_addr s),
                s\<lparr>bufs := (bufs s)(next_addr s \<mapsto> replicate n None),
                  next_addr := Suc (next_addr s)\<rparr>))"

definition ArrayPtr_delete :: "addr option \<Rightarrow> 'a state \<Rightarrow> 'a state" where
  "ArrayPtr_delete p s = (case p of None \<Rightarrow> s | Some a \<Rightarrow> s\<lparr>bufs := (bufs s)(a := None)\<rparr>)"

text \<open>The state in which the array at \<open>a\<close> holds the slots \<open>b\<close>.\<close>

definition set_buf :: "addr \<Rightarrow> 'a option list \<Rightarrow> 'a state \<Rightarrow> 'a state" where
  "set_buf a b s = s\<lparr>bufs := (bufs s)(a \<mapsto> b)\<rparr>"

text \<open>
  Modelled from the spec: \<open>index(i)\<close> of the RawBuffer, as a read \<^verbatim>\<open>p[i]\<close> and as a
  write \<^verbatim>\<open>p[i] = x\<close>. An access through \<^verbatim>\<open>nullptr\<close>, into a released array or at
  \<open>i \<ge> n\<close> is undefined, and so is the read of a slot that was never written.
\<close>

definition load :: "addr option \<Rightarrow> nat \<Rightarrow> 'a state \<Rightarrow> error + 'a" where
  "load p i s =
     (case p of
        None \<Rightarrow> Inl UndefinedBehaviour
      | Some a \<Rightarrow>
          (case bufs s a of
             None \<Rightarrow> Inl UndefinedBehaviour
           | Some b \<Rightarrow>
               if i < length b
               then (case b ! i of None \<Rightarrow> Inl UndefinedBehaviour | Some x \<Rightarrow> Inr x)
               else Inl UndefinedBehaviour))"

definition store :: "addr option \<Rightarrow> nat \<Rightarrow> 'a \<Rightarrow> 'a state \<Rightarrow> error + 'a state" where
  "store p i x s =
     (case p of
        None \<Rightarrow> Inl UndefinedBehaviour
      | Some a \<Rightarrow>
          (case bufs s a of
             None \<Rightarrow> Inl UndefinedBehaviour
           | Some b \<Rightarrow>
               if i < length b
               then Inr (set_buf a (b[i := Some x]) s)
               else Inl UndefinedBehaviour))"

subsection \<open>The algorithms of the standard library the source calls\<close>

text \<open>
  Each is the element-by-element loop of the standard: a range \<open>[first, last)\<close> in the
  array \<open>src\<close> is given by the offset of \<open>first\<close> and the number of elements.
  \<open>std_copy\<close> goes forwards, \<open>std_copy_backward\<close> from the last element down (its
  destination is the offset one past the last slot written).
\<close>

fun std_copy :: "addr option \<Rightarrow> nat \<Rightarrow> nat \<Rightarrow> addr option \<Rightarrow> nat \<Rightarrow> 'a state \<Rightarrow> error + 'a state" where
  "std_copy src i 0 dst k s = Inr s"
| "std_copy src i (Suc c) dst k s =
     bind_err (load src i s) (\<lambda>x.
     bind_err (store dst k x s) (std_copy src (Suc i) c dst (Suc k)))"

fun std_copy_backward :: "addr option \<Rightarrow> nat \<Rightarrow> nat \<Rightarrow> addr option \<Rightarrow> nat \<Rightarrow> 'a state \<Rightarrow> error + 'a state" where
  "std_copy_backward src i 0 dst k s = Inr s"
| "std_copy_backward src i (Suc c) dst 0 s = Inl UndefinedBehaviour"
| "std_copy_backward src i (Suc c) dst (Suc k) s =
     bind_err (load src (i + c) s) (\<lambda>x.
     bind_err (store dst k x s) (std_copy_backward src i c dst k))"

text \<open>\<^verbatim>\<open>std::copy\<close> from an \<^verbatim>\<open>initializer_list\<close>, which is not an array of the store.\<close>

fun std_copy_init :: "'a list \<Rightarrow> addr option \<Rightarrow> nat \<Rightarrow> 'a state \<Rightarrow> error + 'a state" where
  "std_copy_init [] dst k s = Inr s"
| "std_copy_init (x # xs) dst k s = bind_err (store dst k x s) (std_copy_init xs dst (Suc k))"

fun std_fill :: "addr option \<Rightarrow> nat \<Rightarrow> nat \<Rightarrow> 'a \<Rightarrow> 'a state \<Rightarrow> error + 'a state" where
  "std_fill dst k 0 x s = Inr s"
| "std_fill dst k (Suc c) x s = bind_err (store dst k x s) (std_fill dst (Suc k) c x)"

text \<open>
  \<^verbatim>\<open>std::generate\<close> with a generator that has a state \<open>g\<close>: each call returns a value
  and the generator's next state.
\<close>

fun std_generate :: "addr option \<Rightarrow> nat \<Rightarrow> nat \<Rightarrow> ('g \<Rightarrow> 'a \<times> 'g) \<Rightarrow> 'g \<Rightarrow> 'a state \<Rightarrow> error + 'a state" where
  "std_generate dst k 0 gen g s = Inr s"
| "std_generate dst k (Suc c) gen g s =
     (case gen g of (x, g') \<Rightarrow>
        bind_err (store dst k x s) (std_generate dst (Suc k) c gen g'))"

text \<open>\<^verbatim>\<open>std::equal(first1, last1, first2)\<close>: stops at the first pair that differs.\<close>

fun std_equal :: "addr option \<Rightarrow> nat \<Rightarrow> nat \<Rightarrow> addr option \<Rightarrow> nat \<Rightarrow> 'a state \<Rightarrow> error + bool" where
  "std_equal p i 0 q k s = Inr True"
| "std_equal p i (Suc c) q k s =
     bind_err (load p i s) (\<lambda>x.
     bind_err (load q k s) (\<lambda>y.
     if x = y then std_equal p (Suc i) c q (Suc k) s else Inr False))"

subsection \<open>Observers\<close>

definition GetSize :: "vid \<Rightarrow> 'a state \<Rightarrow> nat" where
  "GetSize this s = v_size (vecs s this)"

definition GetCapacity :: "vid \<Rightarrow> 'a state \<Rightarrow> nat" where
  "GetCapacity this s = v_capacity (vecs s this)"

definition IsEmpty :: "vid \<Rightarrow> 'a state \<Rightarrow> bool" where
  "IsEmpty this s = (v_size (vecs s this) = 0)"

definition begin_it :: "vid \<Rightarrow> 'a state \<Rightarrow> ptr" where
  "begin_it this s = (v_data_ptr (vecs s this), 0)"

definition end_it :: "vid \<Rightarrow> 'a state \<Rightarrow> ptr" where
  "end_it this s = (v_data_ptr (vecs s this), v_size (vecs s this))"

text \<open>
  The slots \<open>[begin, end)\<close> of a vector, in order: what iteration and comparison see.
  A vector with no array has none.
\<close>

definition contents :: "SimpleVector \<Rightarrow> 'a state \<Rightarrow> 'a option list" where
  "contents v s =
     (case v_data_ptr v of
        None \<Rightarrow> []
      | Some a \<Rightarrow> (case bufs s a of None \<Rightarrow> [] | Some b \<Rightarrow> take (v_size v) b))"

definition live :: "vid \<Rightarrow> 'a state \<Rightarrow> 'a option list" where
  "live this s = contents (vecs s this) s"

subsection \<open>Construction\<close>

text \<open>\<^verbatim>\<open>SimpleVector() noexcept = default\<close>: the default member initialisers.\<close>

definition SimpleVector_default :: "vid \<Rightarrow> 'a state \<Rightarrow> 'a state" where
  "SimpleVector_default this s = set_vec this empty_vec s"

text \<open>
  \<^verbatim>\<open>explicit SimpleVector(size_t size)\<close>; \<open>dflt\<close> is the value of \<^verbatim>\<open>Type()\<close>, which the
  stateless generator returns at every call.
\<close>

definition SimpleVector_size :: "'a \<Rightarrow> vid \<Rightarrow> nat \<Rightarrow> 'a state \<Rightarrow> error + 'a state" where
  "SimpleVector_size dflt this n s =
     bind_err (ArrayPtr_new n s) (\<lambda>(p, s1).
     std_generate p 0 n (\<lambda>u :: unit. (dflt, u)) ()
       (set_vec this \<lparr>v_data_ptr = p, v_size = n, v_capacity = n\<rparr> s1))"

text \<open>\<^verbatim>\<open>SimpleVector(size_t size, const Type& value)\<close>\<close>

definition SimpleVector_fill :: "vid \<Rightarrow> nat \<Rightarrow> 'a \<Rightarrow> 'a state \<Rightarrow> error + 'a state" where
  "SimpleVector_fill this n val s =
     bind_err (ArrayPtr_new n s) (\<lambda>(p, s1).
     std_fill p 0 n val
       (set_vec this \<lparr>v_data_ptr = p, v_size = n, v_capacity = n\<rparr> s1))"

text \<open>
  \<^verbatim>\<open>SimpleVector(size_t size, Type&& value)\<close>: the generator moves out of the one
  \<^verbatim>\<open>value\<close> at every call; \<open>moved x\<close> is what a \<^verbatim>\<open>Type\<close> holding \<open>x\<close> holds after it has
  been moved from (\<open>x\<close> itself for a trivially copyable type).
\<close>

definition SimpleVector_fill_move :: "('a \<Rightarrow> 'a) \<Rightarrow> vid \<Rightarrow> nat \<Rightarrow> 'a \<Rightarrow> 'a state \<Rightarrow> error + 'a state" where
  "SimpleVector_fill_move moved this n val s =
     bind_err (ArrayPtr_new n s) (\<lambda>(p, s1).
     std_generate p 0 n (\<lambda>v. (v, moved v)) val
       (set_vec this \<lparr>v_data_ptr = p, v_size = n, v_capacity = n\<rparr> s1))"

text \<open>\<^verbatim>\<open>SimpleVector(std::initializer_list<Type> init)\<close>\<close>

definition SimpleVector_init :: "vid \<Rightarrow> 'a list \<Rightarrow> 'a state \<Rightarrow> error + 'a state" where
  "SimpleVector_init this init s =
     bind_err (ArrayPtr_new (length init) s) (\<lambda>(p, s1).
     std_copy_init init p 0
       (set_vec this \<lparr>v_data_ptr = p, v_size = length init, v_capacity = length init\<rparr> s1))"

text \<open>
  The copy constructor, as a function from the object copied to the new object: the
  new object \<open>self\<close> starts from the default member initialisers, and the array it
  held before the exchange is released when \<^verbatim>\<open>new_ptr\<close> goes out of scope.
\<close>

definition copy_construct :: "SimpleVector \<Rightarrow> 'a state \<Rightarrow> error + (SimpleVector \<times> 'a state)" where
  "copy_construct other s =
     (let self = empty_vec in
      if v_size other \<le> v_capacity self then
        bind_err (std_copy (v_data_ptr other) 0 (v_size other) (v_data_ptr self) 0 s) (\<lambda>s1.
        Inr (self\<lparr>v_size := v_size other\<rparr>, s1))
      else
        let new_capacity =
              (if v_size other \<le> size_t (v_capacity self * 2)
               then size_t (v_capacity self * 2) else v_size other)
        in
        bind_err (ArrayPtr_new new_capacity s) (\<lambda>(new_ptr, s1).
        bind_err (std_copy (v_data_ptr other) 0 (v_size other) new_ptr 0 s1) (\<lambda>s2.
        Inr (self\<lparr>v_data_ptr := new_ptr, v_capacity := new_capacity, v_size := v_size other\<rparr>,
             ArrayPtr_delete (v_data_ptr self) s2))))"

text \<open>\<^verbatim>\<open>SimpleVector(const SimpleVector<Type>& other)\<close>, constructing at \<open>this\<close>.\<close>

definition SimpleVector_copy :: "vid \<Rightarrow> vid \<Rightarrow> 'a state \<Rightarrow> error + 'a state" where
  "SimpleVector_copy this other s =
     bind_err (copy_construct (vecs s other) s) (\<lambda>(v, s1). Inr (set_vec this v s1))"

text \<open>\<^verbatim>\<open>void swap(SimpleVector& other) noexcept\<close>: the three members are exchanged.\<close>

definition swap :: "vid \<Rightarrow> vid \<Rightarrow> 'a state \<Rightarrow> 'a state" where
  "swap this other s =
     s\<lparr>vecs := (vecs s)
        (this := \<lparr>v_data_ptr = v_data_ptr (vecs s other), v_size = v_size (vecs s other),
                  v_capacity = v_capacity (vecs s other)\<rparr>,
         other := \<lparr>v_data_ptr = v_data_ptr (vecs s this), v_size = v_size (vecs s this),
                   v_capacity = v_capacity (vecs s this)\<rparr>)\<rparr>"

text \<open>\<^verbatim>\<open>SimpleVector(SimpleVector&& other) noexcept\<close>: default members, then \<^verbatim>\<open>swap(other)\<close>.\<close>

definition SimpleVector_move :: "vid \<Rightarrow> vid \<Rightarrow> 'a state \<Rightarrow> 'a state" where
  "SimpleVector_move this other s = swap this other (set_vec this empty_vec s)"

text \<open>\<^verbatim>\<open>ReserveProxyObj\<close>, the free function \<^verbatim>\<open>Reserve\<close> and the constructor that takes one.\<close>

datatype ReserveProxyObj = ReserveProxyObj nat

fun proxy_GetCapacity :: "ReserveProxyObj \<Rightarrow> nat" where
  "proxy_GetCapacity (ReserveProxyObj n) = n"

definition Reserve_proxy :: "nat \<Rightarrow> ReserveProxyObj" where
  "Reserve_proxy reserved_capacity = ReserveProxyObj reserved_capacity"

definition SimpleVector_reserved :: "vid \<Rightarrow> ReserveProxyObj \<Rightarrow> 'a state \<Rightarrow> error + 'a state" where
  "SimpleVector_reserved this other s =
     bind_err (ArrayPtr_new (proxy_GetCapacity other) s) (\<lambda>(p, s1).
     Inr (set_vec this \<lparr>v_data_ptr = p, v_size = 0, v_capacity = proxy_GetCapacity other\<rparr> s1))"

subsection \<open>Assignment\<close>

text \<open>
  Copy assignment: \<^verbatim>\<open>rhs_copy\<close> is a temporary; after \<^verbatim>\<open>swap(rhs_copy)\<close> it holds the
  former members of \<^verbatim>\<open>*this\<close> and its destructor releases their array.
\<close>

definition assign_copy :: "vid \<Rightarrow> vid \<Rightarrow> 'a state \<Rightarrow> error + 'a state" where
  "assign_copy this rhs s =
     (if this \<noteq> rhs then
        bind_err (copy_construct (vecs s rhs) s) (\<lambda>(rhs_copy, s1).
        Inr (ArrayPtr_delete (v_data_ptr (vecs s1 this)) (set_vec this rhs_copy s1)))
      else Inr s)"

definition assign_move :: "vid \<Rightarrow> vid \<Rightarrow> 'a state \<Rightarrow> 'a state" where
  "assign_move this rhs s = (if this \<noteq> rhs then swap this rhs s else s)"

subsection \<open>Member functions\<close>

definition PopBack :: "vid \<Rightarrow> 'a state \<Rightarrow> error + 'a state" where
  "PopBack this s =
     (let v = vecs s this in
      if v_size v = 0 then Inl AssertionFailed
      else Inr (set_vec this (v\<lparr>v_size := v_size v - 1\<rparr>) s))"

text \<open>
  \<^verbatim>\<open>PushBack(const Type& value)\<close>. In the growing branch the old array is released
  when \<^verbatim>\<open>new_ptr\<close>, which holds it after the exchange, goes out of scope.
\<close>

definition PushBack :: "vid \<Rightarrow> 'a \<Rightarrow> 'a state \<Rightarrow> error + 'a state" where
  "PushBack this val s =
     (let v = vecs s this in
      if v_size v \<noteq> v_capacity v then
        bind_err (store (v_data_ptr v) (v_size v) val s) (\<lambda>s1.
        Inr (set_vec this (v\<lparr>v_size := size_t (v_size v + 1)\<rparr>) s1))
      else
        let new_capacity = (if v_capacity v = 0 then 1 else size_t (v_capacity v * 2)) in
        bind_err (ArrayPtr_new new_capacity s) (\<lambda>(new_ptr, s1).
        bind_err (std_copy (v_data_ptr v) 0 (v_size v) new_ptr 0 s1) (\<lambda>s2.
        bind_err (store new_ptr (v_size v) val s2) (\<lambda>s3.
        Inr (ArrayPtr_delete (v_data_ptr v)
              (set_vec this
                 (v\<lparr>v_data_ptr := new_ptr, v_capacity := new_capacity,
                    v_size := size_t (v_size v + 1)\<rparr>) s3))))))"

text \<open>
  \<^verbatim>\<open>PushBack(Type&& value)\<close>: the same steps with moves for copies. What a move leaves
  behind is in the caller's \<^verbatim>\<open>value\<close> and in the array that is released, so the store
  ends the same.
\<close>

definition PushBack_move :: "vid \<Rightarrow> 'a \<Rightarrow> 'a state \<Rightarrow> error + 'a state" where
  "PushBack_move this val s =
     (let v = vecs s this in
      if v_size v \<noteq> v_capacity v then
        bind_err (store (v_data_ptr v) (v_size v) val s) (\<lambda>s1.
        Inr (set_vec this (v\<lparr>v_size := size_t (v_size v + 1)\<rparr>) s1))
      else
        let new_capacity = (if v_capacity v = 0 then 1 else size_t (v_capacity v * 2)) in
        bind_err (ArrayPtr_new new_capacity s) (\<lambda>(new_ptr, s1).
        bind_err (std_copy (v_data_ptr v) 0 (v_size v) new_ptr 0 s1) (\<lambda>s2.
        bind_err (store new_ptr (v_size v) val s2) (\<lambda>s3.
        Inr (ArrayPtr_delete (v_data_ptr v)
              (set_vec this
                 (v\<lparr>v_data_ptr := new_ptr, v_capacity := new_capacity,
                    v_size := size_t (v_size v + 1)\<rparr>) s3))))))"

text \<open>
  A position is a pointer. The assertions compare it with \<^verbatim>\<open>begin()\<close> and \<^verbatim>\<open>end()\<close>;
  the comparison of pointers into different arrays has no specified result, and
  \<^verbatim>\<open>std::distance\<close> between them is undefined. \<^verbatim>\<open>&data_ptr_[i]\<close> is the pointer to
  slot \<open>i\<close>: it computes an address and reads nothing, also where \<open>i\<close> is one past
  the last slot. The value inserted is the value of the argument at the call; it is
  taken not to be an element of the vector itself.
\<close>

definition Erase :: "vid \<Rightarrow> ptr \<Rightarrow> 'a state \<Rightarrow> error + (ptr \<times> 'a state)" where
  "Erase this pos s =
     (let v = vecs s this in
      if fst pos \<noteq> v_data_ptr v then Inl UndefinedBehaviour
      else if \<not> snd pos < v_size v then Inl AssertionFailed
      else
        let n = snd pos in
        bind_err (std_copy (v_data_ptr v) (n + 1) (v_size v - (n + 1)) (v_data_ptr v) n s) (\<lambda>s1.
        Inr ((v_data_ptr v, n), set_vec this (v\<lparr>v_size := v_size v - 1\<rparr>) s1)))"

text \<open>
  \<^verbatim>\<open>Insert(ConstIterator pos, Type&& value)\<close>: \<open>n\<close> is taken before the branch.
  The other overload, \<^verbatim>\<open>Insert(ConstIterator pos, const Type& value)\<close>, has no embedding:
  it passes \<^verbatim>\<open>pos\<close>, a \<^verbatim>\<open>const Type*\<close>, and \<^verbatim>\<open>end()\<close>, a \<^verbatim>\<open>Type*\<close>, for the one
  iterator type of \<^verbatim>\<open>std::copy_backward\<close> and of \<^verbatim>\<open>std::copy\<close>, so no call of it can be
  instantiated, and every \<^verbatim>\<open>Insert\<close> that a program runs is this one.
\<close>

definition Insert_move :: "vid \<Rightarrow> ptr \<Rightarrow> 'a \<Rightarrow> 'a state \<Rightarrow> error + (ptr \<times> 'a state)" where
  "Insert_move this pos val s =
     (let v = vecs s this in
      if fst pos \<noteq> v_data_ptr v then Inl UndefinedBehaviour
      else if \<not> snd pos \<le> v_size v then Inl AssertionFailed
      else
        let n = snd pos in
        if v_size v \<noteq> v_capacity v then
          bind_err (std_copy_backward (v_data_ptr v) n (v_size v - n) (v_data_ptr v) (v_size v + 1) s) (\<lambda>s1.
          bind_err (store (v_data_ptr v) n val s1) (\<lambda>s2.
          Inr ((v_data_ptr v, n), set_vec this (v\<lparr>v_size := size_t (v_size v + 1)\<rparr>) s2)))
        else
          let new_capacity = (if v_capacity v = 0 then 1 else size_t (v_capacity v * 2)) in
          bind_err (ArrayPtr_new new_capacity s) (\<lambda>(new_ptr, s1).
          bind_err (std_copy (v_data_ptr v) 0 n new_ptr 0 s1) (\<lambda>s2.
          let pos_in_new = (new_ptr, n) in
          bind_err (store (fst pos_in_new) (snd pos_in_new) val s2) (\<lambda>s3.
          bind_err (std_copy (v_data_ptr v) n (v_size v - n)
                      (fst pos_in_new) (snd pos_in_new + 1) s3) (\<lambda>s4.
          Inr (pos_in_new,
               ArrayPtr_delete (v_data_ptr v)
                 (set_vec this
                    (v\<lparr>v_data_ptr := new_ptr, v_capacity := new_capacity,
                       v_size := size_t (v_size v + 1)\<rparr>) s4)))))))"

definition Reserve :: "vid \<Rightarrow> nat \<Rightarrow> 'a state \<Rightarrow> error + 'a state" where
  "Reserve this new_capacity s =
     (let v = vecs s this in
      if v_capacity v < new_capacity then
        bind_err (ArrayPtr_new new_capacity s) (\<lambda>(new_ptr, s1).
        bind_err (std_copy (v_data_ptr v) 0 (v_size v) new_ptr 0 s1) (\<lambda>s2.
        Inr (ArrayPtr_delete (v_data_ptr v)
              (set_vec this (v\<lparr>v_data_ptr := new_ptr, v_capacity := new_capacity\<rparr>) s2))))
      else Inr s)"

definition Clear :: "vid \<Rightarrow> 'a state \<Rightarrow> 'a state" where
  "Clear this s = set_vec this ((vecs s this)\<lparr>v_size := 0\<rparr>) s"

text \<open>\<^verbatim>\<open>Resize\<close>; \<open>dflt\<close> is the value of \<^verbatim>\<open>Type()\<close>.\<close>

definition Resize :: "'a \<Rightarrow> vid \<Rightarrow> nat \<Rightarrow> 'a state \<Rightarrow> error + 'a state" where
  "Resize dflt this new_size s =
     (let v = vecs s this in
      if new_size \<le> v_size v then Inr (set_vec this (v\<lparr>v_size := new_size\<rparr>) s)
      else if v_size v < new_size \<and> new_size \<le> v_capacity v then
        bind_err (std_generate (v_data_ptr v) (v_size v) (new_size - v_size v)
                    (\<lambda>u :: unit. (dflt, u)) () s) (\<lambda>s1.
        Inr (set_vec this (v\<lparr>v_size := new_size\<rparr>) s1))
      else if v_size v < new_size \<and> v_capacity v < new_size then
        let new_capacity =
              (if new_size \<le> size_t (v_capacity v * 2) then size_t (v_capacity v * 2) else new_size)
        in
        bind_err (ArrayPtr_new new_capacity s) (\<lambda>(new_ptr, s1).
        bind_err (std_copy (v_data_ptr v) 0 (v_size v) new_ptr 0 s1) (\<lambda>s2.
        bind_err (std_generate new_ptr (v_size v) (new_size - v_size v)
                    (\<lambda>u :: unit. (dflt, u)) () s2) (\<lambda>s3.
        Inr (ArrayPtr_delete (v_data_ptr v)
              (set_vec this
                 (v\<lparr>v_data_ptr := new_ptr, v_capacity := new_capacity, v_size := new_size\<rparr>)
                 s3)))))
      else Inr s)"

text \<open>
  Element access returns a reference: the pointer to the slot. \<open>deref\<close> reads through
  a pointer.
\<close>

definition deref :: "ptr \<Rightarrow> 'a state \<Rightarrow> error + 'a" where
  "deref p s = load (fst p) (snd p) s"

definition subscript :: "vid \<Rightarrow> nat \<Rightarrow> 'a state \<Rightarrow> error + ptr" where
  "subscript this index s =
     (if \<not> index < v_size (vecs s this) then Inl AssertionFailed
      else Inr (v_data_ptr (vecs s this), index))"

definition At :: "vid \<Rightarrow> nat \<Rightarrow> 'a state \<Rightarrow> error + ptr" where
  "At this index s =
     (if v_size (vecs s this) \<le> index then Inl IndexOutOfRange
      else Inr (v_data_ptr (vecs s this), index))"

subsection \<open>Comparison\<close>

definition op_eq :: "vid \<Rightarrow> vid \<Rightarrow> 'a state \<Rightarrow> error + bool" where
  "op_eq lhs rhs s =
     (if GetSize lhs s = GetSize rhs s
      then std_equal (fst (begin_it lhs s)) (snd (begin_it lhs s)) (snd (end_it lhs s) - snd (begin_it lhs s))
             (fst (begin_it rhs s)) (snd (begin_it rhs s)) s
      else Inr False)"

definition op_neq :: "vid \<Rightarrow> vid \<Rightarrow> 'a state \<Rightarrow> error + bool" where
  "op_neq lhs rhs s = bind_err (op_eq lhs rhs s) (\<lambda>b. Inr (\<not> b))"

subsection \<open>Destruction\<close>

text \<open>
  The implicit destructor destroys the member \<^verbatim>\<open>data_ptr_\<close>, which releases the array.
  The location is unused afterwards.
\<close>

definition SimpleVector_destroy :: "vid \<Rightarrow> 'a state \<Rightarrow> 'a state" where
  "SimpleVector_destroy this s =
     set_vec this empty_vec (ArrayPtr_delete (v_data_ptr (vecs s this)) s)"

subsection \<open>Sequences of public operations\<close>

datatype 'a operation =
    Construct_default vid
  | Construct_size vid nat
  | Construct_fill vid nat 'a
  | Construct_fill_move vid nat 'a
  | Construct_init vid "'a list"
  | Construct_copy vid vid
  | Construct_move vid vid
  | Construct_reserved vid ReserveProxyObj
  | Destroy vid
  | Assign_copy vid vid
  | Assign_move vid vid
  | Call_swap vid vid
  | Call_PopBack vid
  | Call_PushBack vid 'a
  | Call_PushBack_move vid 'a
  | Call_Erase vid ptr
  | Call_Insert_move vid ptr 'a
  | Call_Reserve vid nat
  | Call_Resize vid nat
  | Call_Clear vid

text \<open>
  One operation on the state. An operation that throws or fails leaves no state to go
  on from. \<open>dflt\<close> is \<^verbatim>\<open>Type()\<close> and \<open>moved\<close> what a move leaves in its source.
\<close>

fun step :: "'a \<Rightarrow> ('a \<Rightarrow> 'a) \<Rightarrow> 'a operation \<Rightarrow> 'a state \<Rightarrow> error + 'a state" where
  "step dflt moved (Construct_default this) s = Inr (SimpleVector_default this s)"
| "step dflt moved (Construct_size this n) s = SimpleVector_size dflt this n s"
| "step dflt moved (Construct_fill this n x) s = SimpleVector_fill this n x s"
| "step dflt moved (Construct_fill_move this n x) s = SimpleVector_fill_move moved this n x s"
| "step dflt moved (Construct_init this xs) s = SimpleVector_init this xs s"
| "step dflt moved (Construct_copy this other) s = SimpleVector_copy this other s"
| "step dflt moved (Construct_move this other) s = Inr (SimpleVector_move this other s)"
| "step dflt moved (Construct_reserved this r) s = SimpleVector_reserved this r s"
| "step dflt moved (Destroy this) s = Inr (SimpleVector_destroy this s)"
| "step dflt moved (Assign_copy this rhs) s = assign_copy this rhs s"
| "step dflt moved (Assign_move this rhs) s = Inr (assign_move this rhs s)"
| "step dflt moved (Call_swap this other) s = Inr (swap this other s)"
| "step dflt moved (Call_PopBack this) s = PopBack this s"
| "step dflt moved (Call_PushBack this x) s = PushBack this x s"
| "step dflt moved (Call_PushBack_move this x) s = PushBack_move this x s"
| "step dflt moved (Call_Erase this pos) s = bind_err (Erase this pos s) (\<lambda>(p, s'). Inr s')"
| "step dflt moved (Call_Insert_move this pos x) s =
     bind_err (Insert_move this pos x s) (\<lambda>(p, s'). Inr s')"
| "step dflt moved (Call_Reserve this n) s = Reserve this n s"
| "step dflt moved (Call_Resize this n) s = Resize dflt this n s"
| "step dflt moved (Call_Clear this) s = Inr (Clear this s)"

fun run :: "'a \<Rightarrow> ('a \<Rightarrow> 'a) \<Rightarrow> 'a operation list \<Rightarrow> 'a state \<Rightarrow> error + 'a state" where
  "run dflt moved [] s = Inr s"
| "run dflt moved (x # xs) s = bind_err (step dflt moved x s) (run dflt moved xs)"

text \<open>The states a program can be in: those some sequence of operations returns.\<close>

inductive reachable :: "'a \<Rightarrow> ('a \<Rightarrow> 'a) \<Rightarrow> 'a state \<Rightarrow> bool" for dflt moved where
  reachable_init: "reachable dflt moved init_state"
| reachable_step:
    "reachable dflt moved s \<Longrightarrow> step dflt moved x s = Inr s' \<Longrightarrow> reachable dflt moved s'"

text \<open>The objects an operation is applied to (the one it is called on and its argument).\<close>

fun objects :: "'a operation \<Rightarrow> vid list" where
  "objects (Construct_default this) = [this]"
| "objects (Construct_size this n) = [this]"
| "objects (Construct_fill this n x) = [this]"
| "objects (Construct_fill_move this n x) = [this]"
| "objects (Construct_init this xs) = [this]"
| "objects (Construct_copy this other) = [this]"
| "objects (Construct_move this other) = [this, other]"
| "objects (Construct_reserved this r) = [this]"
| "objects (Destroy this) = [this]"
| "objects (Assign_copy this rhs) = [this]"
| "objects (Assign_move this rhs) = [this, rhs]"
| "objects (Call_swap this other) = [this, other]"
| "objects (Call_PopBack this) = [this]"
| "objects (Call_PushBack this x) = [this]"
| "objects (Call_PushBack_move this x) = [this]"
| "objects (Call_Erase this pos) = [this]"
| "objects (Call_Insert_move this pos x) = [this]"
| "objects (Call_Reserve this n) = [this]"
| "objects (Call_Resize this n) = [this]"
| "objects (Call_Clear this) = [this]"

subsection \<open>Well-formed states\<close>

text \<open>
  An object is well formed in a state when its size is within its capacity, it has an
  array exactly when its capacity is not 0, the array has \<open>capacity\<close> slots, and the
  slots below \<open>size\<close> have been written.
\<close>

definition vec_ok :: "'a state \<Rightarrow> SimpleVector \<Rightarrow> bool" where
  "vec_ok s v =
     (v_size v \<le> v_capacity v \<and> v_capacity v \<le> max_slots \<and>
      (case v_data_ptr v of
         None \<Rightarrow> v_capacity v = 0
       | Some a \<Rightarrow>
           a < next_addr s \<and> 0 < v_capacity v \<and>
           (case bufs s a of
              None \<Rightarrow> False
            | Some b \<Rightarrow> length b = v_capacity v \<and> None \<notin> set (take (v_size v) b))))"

text \<open>A state is well formed when every object is and no two objects own the same array.\<close>

definition state_ok :: "'a state \<Rightarrow> bool" where
  "state_ok s =
     ((\<forall>i. vec_ok s (vecs s i)) \<and>
      (\<forall>i j a. v_data_ptr (vecs s i) = Some a \<and> v_data_ptr (vecs s j) = Some a \<longrightarrow> i = j))"

text \<open>
  Two relations between the state before and the state after, for the proofs.
  \<open>writes p K s s'\<close>: the states differ at most in the array \<open>p\<close>, which keeps its
  length; the slots that were written before are written after, and so are the slots
  in \<open>K\<close>. \<open>frame p s s'\<close>: every array allocated in \<open>s\<close>, other than \<open>p\<close>, is the same
  in \<open>s'\<close>, and no address is given out twice.
\<close>

definition writes :: "addr option \<Rightarrow> nat set \<Rightarrow> 'a state \<Rightarrow> 'a state \<Rightarrow> bool" where
  "writes p K s s' =
     ((s' = s \<and> K = {}) \<or>
      (\<exists>a bd b'. p = Some a \<and> bufs s a = Some bd \<and> s' = set_buf a b' s \<and>
         length b' = length bd \<and> K \<subseteq> {..<length bd} \<and>
         (\<forall>j<length bd. bd ! j \<noteq> None \<or> j \<in> K \<longrightarrow> b' ! j \<noteq> None)))"

definition frame :: "addr option \<Rightarrow> 'a state \<Rightarrow> 'a state \<Rightarrow> bool" where
  "frame p s s' =
     (next_addr s \<le> next_addr s' \<and>
      (\<forall>a. a < next_addr s \<and> Some a \<noteq> p \<longrightarrow> bufs s' a = bufs s a))"

text \<open>
  \<open>updates this s s'\<close>: what an operation on the object \<open>this\<close> may do. The object is
  well formed afterwards, every other object has the same members, no array but its
  own was touched, and the array it has afterwards is the one it had or a new one.
\<close>

definition updates :: "vid \<Rightarrow> 'a state \<Rightarrow> 'a state \<Rightarrow> bool" where
  "updates this s s' =
     (vec_ok s' (vecs s' this) \<and>
      frame (v_data_ptr (vecs s this)) s s' \<and>
      (\<forall>j. j \<noteq> this \<longrightarrow> vecs s' j = vecs s j) \<and>
      (v_data_ptr (vecs s' this) = v_data_ptr (vecs s this) \<or>
       v_data_ptr (vecs s' this) = None \<or>
       (\<exists>a. v_data_ptr (vecs s' this) = Some a \<and> next_addr s \<le> a)))"

text \<open>
  The positions an operation is given point into the array of the vector it is applied
  to (anything else is a pointer the caller made up or kept from before a
  reallocation).
\<close>

definition position_in :: "'a operation \<Rightarrow> 'a state \<Rightarrow> bool" where
  "position_in x s =
     (case x of
        Call_Erase this pos \<Rightarrow> fst pos = v_data_ptr (vecs s this)
      | Call_Insert_move this pos v \<Rightarrow> fst pos = v_data_ptr (vecs s this)
      | _ \<Rightarrow> True)"

subsection \<open>Repeated PushBack and the doubling rule\<close>

text \<open>
  A call \<^verbatim>\<open>v.PushBack(e)\<close> runs one of the two overloads, chosen by the argument: an
  lvalue binds to \<^verbatim>\<open>const Type&\<close>, an rvalue to \<^verbatim>\<open>Type&&\<close>. A sequence of calls is a list
  of such arguments, each carrying the value it has at its call.
\<close>

datatype 'a argument = Lvalue 'a | Rvalue 'a

fun arg_value :: "'a argument \<Rightarrow> 'a" where
  "arg_value (Lvalue x) = x"
| "arg_value (Rvalue x) = x"

fun PushBack_call :: "vid \<Rightarrow> 'a argument \<Rightarrow> 'a state \<Rightarrow> error + 'a state" where
  "PushBack_call this (Lvalue x) s = PushBack this x s"
| "PushBack_call this (Rvalue x) s = PushBack_move this x s"

fun PushBack_all :: "vid \<Rightarrow> 'a argument list \<Rightarrow> 'a state \<Rightarrow> error + 'a state" where
  "PushBack_all this [] s = Inr s"
| "PushBack_all this (x # xs) s = bind_err (PushBack_call this x s) (PushBack_all this xs)"

text \<open>
  The capacity the growth rule of the specification gives after \<open>n\<close> appends to an empty
  container: a growth step happens when the container is full, and then
  \<open>new_capacity = capacity == 0 ? 1 : capacity * 2\<close>.
\<close>

fun doubling :: "nat \<Rightarrow> nat" where
  "doubling 0 = 0"
| "doubling (Suc n) =
     (if n \<noteq> doubling n then doubling n
      else if doubling n = 0 then 1 else doubling n * 2)"

subsection \<open>Example states\<close>

text \<open>One vector \<^verbatim>\<open>{1, 2, 3}\<close> at location 0.\<close>

definition ex_one :: "nat state" where
  "ex_one =
     \<lparr>bufs = (\<lambda>a. None)(0 \<mapsto> [Some 1, Some 2, Some 3]),
      next_addr = 1,
      vecs = (\<lambda>i. empty_vec)(0 := \<lparr>v_data_ptr = Some 0, v_size = 3, v_capacity = 3\<rparr>)\<rparr>"

text \<open>Two vectors: \<^verbatim>\<open>{1}\<close> at location 0 and \<^verbatim>\<open>{2, 3}\<close> at location 1.\<close>

definition ex_two :: "nat state" where
  "ex_two =
     \<lparr>bufs = (\<lambda>a. None)(0 \<mapsto> [Some 1], 1 \<mapsto> [Some 2, Some 3]),
      next_addr = 2,
      vecs = (\<lambda>i. empty_vec)
        (0 := \<lparr>v_data_ptr = Some 0, v_size = 1, v_capacity = 1\<rparr>,
         1 := \<lparr>v_data_ptr = Some 1, v_size = 2, v_capacity = 2\<rparr>)\<rparr>"

section \<open>Properties\<close>

subsection \<open>Basic facts\<close>

lemma bind_err_Inl [simp]: "bind_err (Inl e) f = Inl e"
  by (simp add: bind_err_def)

lemma bind_err_Inr [simp]: "bind_err (Inr x) f = f x"
  by (simp add: bind_err_def)

lemma bind_err_eq_Inr:
  "bind_err m f = Inr y \<longleftrightarrow> (\<exists>x. m = Inr x \<and> f x = Inr y)"
  by (cases m) simp_all

text \<open>The example states are what the constructors build.\<close>

lemma ex_one_constructed: "SimpleVector_init 0 [1, 2, 3] init_state = Inr ex_one"
  by (simp add: SimpleVector_init_def ArrayPtr_new_def max_slots_def set_vec_def store_def set_buf_def
      init_state_def ex_one_def numeral_3_eq_3)

lemma max_slots_val: "max_slots = 9223372036854775807"
  by (simp add: max_slots_def)

lemma vec_eta [simp]:
  "\<lparr>v_data_ptr = v_data_ptr r, v_size = v_size r, v_capacity = v_capacity r\<rparr> = r"
  by (cases r) simp

lemma ex_two_constructed:
  "bind_err (SimpleVector_init 0 [1] init_state) (SimpleVector_init 1 [2, 3]) = Inr ex_two"
  by (simp add: SimpleVector_init_def ArrayPtr_new_def max_slots_val set_vec_def store_def
      set_buf_def init_state_def ex_two_def numeral_2_eq_2 fun_upd_twist)

lemma swap_vecs:
  "vecs (swap this other s) = (vecs s)(this := vecs s other, other := vecs s this)"
  and bufs_swap [simp]: "bufs (swap this other s) = bufs s"
  and next_addr_swap [simp]: "next_addr (swap this other s) = next_addr s"
  by (simp_all add: swap_def)

lemma bufs_set_vec [simp]: "bufs (set_vec t v s) = bufs s"
  and next_addr_set_vec [simp]: "next_addr (set_vec t v s) = next_addr s"
  and vecs_set_vec [simp]: "vecs (set_vec t v s) = (vecs s)(t := v)"
  by (simp_all add: set_vec_def)

lemma bufs_set_buf [simp]: "bufs (set_buf a b s) = (bufs s)(a \<mapsto> b)"
  and next_addr_set_buf [simp]: "next_addr (set_buf a b s) = next_addr s"
  and vecs_set_buf [simp]: "vecs (set_buf a b s) = vecs s"
  by (simp_all add: set_buf_def)

subsection \<open>What the writing primitives do to the store\<close>

lemma set_buf_set_buf [simp]: "set_buf a b (set_buf a b' s) = set_buf a b s"
  by (simp add: set_buf_def)

lemma writes_refl: "writes p {} s s"
  by (simp add: writes_def)

lemma writes_trans:
  assumes "writes p K1 s s1" and "writes p K2 s1 s2"
  shows "writes p (K1 \<union> K2) s s2"
proof (cases "s1 = s \<and> K1 = {}")
  case True
  with assms show ?thesis by simp
next
  case False
  note f1 = this
  show ?thesis
  proof (cases "s2 = s1 \<and> K2 = {}")
    case True
    with assms show ?thesis by simp
  next
    case False
    from assms(1) f1 obtain a bd b1 where 1: "p = Some a" "bufs s a = Some bd" "s1 = set_buf a b1 s"
      "length b1 = length bd" "K1 \<subseteq> {..<length bd}"
      "\<forall>j<length bd. bd ! j \<noteq> None \<or> j \<in> K1 \<longrightarrow> b1 ! j \<noteq> None"
      unfolding writes_def by blast
    from assms(2) False obtain a' bd' b2 where 2: "p = Some a'" "bufs s1 a' = Some bd'"
      "s2 = set_buf a' b2 s1"
      "length b2 = length bd'" "K2 \<subseteq> {..<length bd'}"
      "\<forall>j<length bd'. bd' ! j \<noteq> None \<or> j \<in> K2 \<longrightarrow> b2 ! j \<noteq> None"
      unfolding writes_def by blast
    from 1 2 have aa: "a' = a" and bb: "bd' = b1" by simp_all
    have "s2 = set_buf a b2 s" using 1 2 aa by simp
    moreover have "length b2 = length bd" using 1 2 bb by simp
    moreover have "K1 \<union> K2 \<subseteq> {..<length bd}" using 1 2 bb by simp
    moreover have "\<forall>j<length bd. bd ! j \<noteq> None \<or> j \<in> K1 \<union> K2 \<longrightarrow> b2 ! j \<noteq> None"
      using 1(4,6) 2(6) bb by (metis Un_iff)
    ultimately show ?thesis using 1(1,2) unfolding writes_def by blast
  qed
qed

lemma store_writes: "store p i x s = Inr s' \<Longrightarrow> writes p {i} s s'"
  by (auto simp: store_def writes_def nth_list_update split: option.splits if_splits)

lemma std_copy_writes: "std_copy src i c dst k s = Inr s' \<Longrightarrow> writes dst {k..<k + c} s s'"
proof (induction c arbitrary: i k s)
  case 0
  then show ?case by (simp add: writes_refl)
next
  case (Suc c)
  then obtain x s1 where "store dst k x s = Inr s1"
    and r: "std_copy src (Suc i) c dst (Suc k) s1 = Inr s'"
    by (auto simp: bind_err_eq_Inr)
  then have "writes dst {k} s s1" by (simp add: store_writes)
  moreover from r have "writes dst {Suc k..<Suc k + c} s1 s'" by (rule Suc.IH)
  ultimately have "writes dst ({k} \<union> {Suc k..<Suc k + c}) s s'" by (rule writes_trans)
  moreover have "{k} \<union> {Suc k..<Suc k + c} = {k..<k + Suc c}" by auto
  ultimately show ?case by simp
qed

lemma std_copy_backward_writes:
  "std_copy_backward src i c dst k s = Inr s' \<Longrightarrow> c \<le> k \<and> writes dst {k - c..<k} s s'"
proof (induction src i c dst k s rule: std_copy_backward.induct)
  case (1 src i dst k s)
  then show ?case by (simp add: writes_refl)
next
  case (2 src i c dst s)
  then show ?case by simp
next
  case (3 src i c dst k s)
  from "3.prems" obtain x s1 where ld: "load src (i + c) s = Inr x"
    and st: "store dst k x s = Inr s1"
    and r: "std_copy_backward src i c dst k s1 = Inr s'"
    by (auto simp: bind_err_eq_Inr)
  from st have w1: "writes dst {k} s s1" by (simp add: store_writes)
  from "3.IH"[OF r] have ck: "c \<le> k" and w2: "writes dst {k - c..<k} s1 s'" by simp_all
  from writes_trans[OF w1 w2] have "writes dst ({k} \<union> {k - c..<k}) s s'" .
  moreover have "{k} \<union> {k - c..<k} = {Suc k - Suc c..<Suc k}" using ck by auto
  ultimately show ?case using ck by simp
qed

lemma std_copy_init_writes:
  "std_copy_init xs dst k s = Inr s' \<Longrightarrow> writes dst {k..<k + length xs} s s'"
proof (induction xs arbitrary: k s)
  case Nil
  then show ?case by (simp add: writes_refl)
next
  case (Cons x xs)
  then obtain s1 where "store dst k x s = Inr s1"
    and r: "std_copy_init xs dst (Suc k) s1 = Inr s'"
    by (auto simp: bind_err_eq_Inr)
  then have "writes dst {k} s s1" by (simp add: store_writes)
  moreover from r have "writes dst {Suc k..<Suc k + length xs} s1 s'" by (rule Cons.IH)
  ultimately have "writes dst ({k} \<union> {Suc k..<Suc k + length xs}) s s'" by (rule writes_trans)
  moreover have "{k} \<union> {Suc k..<Suc k + length xs} = {k..<k + length (x # xs)}" by auto
  ultimately show ?case by simp
qed

lemma std_fill_writes: "std_fill dst k c x s = Inr s' \<Longrightarrow> writes dst {k..<k + c} s s'"
proof (induction c arbitrary: k s)
  case 0
  then show ?case by (simp add: writes_refl)
next
  case (Suc c)
  then obtain s1 where "store dst k x s = Inr s1"
    and r: "std_fill dst (Suc k) c x s1 = Inr s'"
    by (auto simp: bind_err_eq_Inr)
  then have "writes dst {k} s s1" by (simp add: store_writes)
  moreover from r have "writes dst {Suc k..<Suc k + c} s1 s'" by (rule Suc.IH)
  ultimately have "writes dst ({k} \<union> {Suc k..<Suc k + c}) s s'" by (rule writes_trans)
  moreover have "{k} \<union> {Suc k..<Suc k + c} = {k..<k + Suc c}" by auto
  ultimately show ?case by simp
qed

lemma std_generate_writes:
  "std_generate dst k c gen g s = Inr s' \<Longrightarrow> writes dst {k..<k + c} s s'"
proof (induction c arbitrary: k g s)
  case 0
  then show ?case by (simp add: writes_refl)
next
  case (Suc c)
  then obtain x g' s1 where "store dst k x s = Inr s1"
    and r: "std_generate dst (Suc k) c gen g' s1 = Inr s'"
    by (auto simp: bind_err_eq_Inr split: prod.splits)
  then have "writes dst {k} s s1" by (simp add: store_writes)
  moreover from r have "writes dst {Suc k..<Suc k + c} s1 s'" by (rule Suc.IH)
  ultimately have "writes dst ({k} \<union> {Suc k..<Suc k + c}) s s'" by (rule writes_trans)
  moreover have "{k} \<union> {Suc k..<Suc k + c} = {k..<k + Suc c}" by auto
  ultimately show ?case by simp
qed

subsection \<open>Frames and well-formed objects\<close>

lemma size_t_id: "n \<le> 2 * max_slots + 1 \<Longrightarrow> size_t n = n"
  by (simp add: size_t_def max_slots_val)

lemma None_notin_take:
  "n \<le> length b \<Longrightarrow> (None \<notin> set (take n b)) = (\<forall>j<n. b ! j \<noteq> None)"
  by (auto simp: in_set_conv_nth)

lemma writes_same:
  "writes p K s s' \<Longrightarrow> next_addr s' = next_addr s \<and> vecs s' = vecs s"
  by (auto simp: writes_def)

lemma writes_other: "writes p K s s' \<Longrightarrow> Some a \<noteq> p \<Longrightarrow> bufs s' a = bufs s a"
  unfolding writes_def by (elim disjE exE conjE) simp_all

lemma writes_frame: "writes p K s s' \<Longrightarrow> frame p s s'"
  using writes_other[of p K s s'] writes_same[of p K s s'] by (simp add: frame_def)

lemma frame_refl: "frame p s s"
  by (simp add: frame_def)

lemma frame_trans: "frame p s s1 \<Longrightarrow> frame p s1 s2 \<Longrightarrow> frame p s s2"
  by (auto simp: frame_def)

lemma vec_ok_set_vec [simp]: "vec_ok (set_vec t w s) v = vec_ok s v"
  by (simp add: vec_ok_def split: option.splits)

lemma vec_ok_frame:
  "vec_ok s v \<Longrightarrow> frame p s s' \<Longrightarrow> v_data_ptr v = None \<or> v_data_ptr v \<noteq> p \<Longrightarrow> vec_ok s' v"
  by (auto simp: vec_ok_def frame_def split: option.splits)

lemma vec_ok_writes:
  assumes ok: "vec_ok s v" and w: "writes (v_data_ptr v) K s s'"
    and sz: "sz \<le> v_capacity v" and cover: "{..<sz} \<subseteq> {..<v_size v} \<union> K"
  shows "vec_ok s' (v\<lparr>v_size := sz\<rparr>)"
proof (cases "s' = s \<and> K = {}")
  case True
  with cover have "sz \<le> v_size v" by auto
  then have "set (take sz b) \<subseteq> set (take (v_size v) b)" for b :: "'a option list"
    by (rule set_take_subset_set_take)
  then have "None \<notin> set (take (v_size v) b) \<Longrightarrow> None \<notin> set (take sz b)"
    for b :: "'a option list" by blast
  with ok True sz show ?thesis
    by (auto simp: vec_ok_def split: option.splits)
next
  case False
  with w obtain a bd b' where 1: "v_data_ptr v = Some a" "bufs s a = Some bd" "s' = set_buf a b' s"
      "length b' = length bd" "K \<subseteq> {..<length bd}"
      "\<forall>j<length bd. bd ! j \<noteq> None \<or> j \<in> K \<longrightarrow> b' ! j \<noteq> None"
    unfolding writes_def by blast
  from ok 1 have len: "length bd = v_capacity v" and le: "v_size v \<le> v_capacity v"
    and init: "\<forall>j<v_size v. bd ! j \<noteq> None" and cap: "v_capacity v \<le> max_slots"
    and a: "a < next_addr s" and pos: "0 < v_capacity v"
    by (auto simp: vec_ok_def None_notin_take)
  have "\<forall>j<sz. b' ! j \<noteq> None"
  proof (intro allI impI)
    fix j assume j: "j < sz"
    with cover have "j < v_size v \<or> j \<in> K" by auto
    with init have "bd ! j \<noteq> None \<or> j \<in> K" by auto
    moreover have "j < length bd" using j sz len by simp
    ultimately show "b' ! j \<noteq> None" using 1(6) by blast
  qed
  then have "None \<notin> set (take sz b')" using sz len 1(4) by (simp add: None_notin_take)
  then show ?thesis using 1 len sz cap a pos by (simp add: vec_ok_def)
qed

lemma ArrayPtr_new_ok:
  assumes "ArrayPtr_new n s = Inr (p, s1)"
  shows "vec_ok s1 \<lparr>v_data_ptr = p, v_size = 0, v_capacity = n\<rparr>"
    and "frame q s s1" and "vecs s1 = vecs s"
    and "p = None \<or> p = Some (next_addr s)"
    and "next_addr s \<le> next_addr s1"
  using assms
  by (auto simp: ArrayPtr_new_def vec_ok_def frame_def split: if_splits)

lemma ArrayPtr_delete_simps [simp]:
  "vecs (ArrayPtr_delete p s) = vecs s"
  "next_addr (ArrayPtr_delete p s) = next_addr s"
  "ArrayPtr_delete None s = s"
  "bufs (ArrayPtr_delete (Some a) s) = (bufs s)(a := None)"
  by (simp_all add: ArrayPtr_delete_def split: option.splits)

lemma ArrayPtr_delete_frame: "frame p s (ArrayPtr_delete p s)"
  by (cases p) (simp_all add: frame_def)

lemma vec_upd_all:
  "v\<lparr>v_data_ptr := p, v_capacity := c, v_size := n\<rparr> = \<lparr>v_data_ptr = p, v_size = n, v_capacity = c\<rparr>"
  by (cases v) simp

lemma vec_upd_ptr_cap:
  "v\<lparr>v_data_ptr := p, v_capacity := c\<rparr> = \<lparr>v_data_ptr = p, v_size = v_size v, v_capacity = c\<rparr>"
  by (cases v) simp

text \<open>An operation that works in the array the object has.\<close>

lemma inplace_updates:
  assumes ok: "vec_ok s (vecs s this)"
    and w: "writes (v_data_ptr (vecs s this)) K s s1"
    and sz: "sz \<le> v_capacity (vecs s this)"
    and cover: "{..<sz} \<subseteq> {..<v_size (vecs s this)} \<union> K"
  shows "updates this s (set_vec this ((vecs s this)\<lparr>v_size := sz\<rparr>) s1)"
proof -
  have "vec_ok s1 ((vecs s this)\<lparr>v_size := sz\<rparr>)"
    using ok w sz cover by (rule vec_ok_writes)
  moreover have "frame (v_data_ptr (vecs s this)) s s1" using w by (rule writes_frame)
  moreover have "vecs s1 = vecs s" using w by (simp add: writes_same)
  ultimately show ?thesis by (simp add: updates_def frame_def)
qed

text \<open>An operation that moves the object into a new array and releases the old one.\<close>

lemma realloc_updates:
  assumes new: "ArrayPtr_new nc s = Inr (new_ptr, s1)"
    and w: "writes new_ptr K s1 s3"
    and sz: "sz \<le> nc" and cover: "{..<sz} \<subseteq> K"
    and old: "old = None \<or> (old = v_data_ptr (vecs s this) \<and> (\<exists>a. old = Some a \<and> a < next_addr s))"
  shows "updates this s
           (ArrayPtr_delete old
              (set_vec this \<lparr>v_data_ptr = new_ptr, v_size = sz, v_capacity = nc\<rparr> s3))"
proof -
  let ?t = "\<lparr>v_data_ptr = new_ptr, v_size = 0, v_capacity = nc\<rparr>"
  let ?v = "\<lparr>v_data_ptr = new_ptr, v_size = sz, v_capacity = nc\<rparr>"
  let ?s4 = "set_vec this ?v s3"
  note n = ArrayPtr_new_ok[OF new]
  have "vec_ok s3 (?t\<lparr>v_size := sz\<rparr>)"
    using n(1) w sz cover by (intro vec_ok_writes[where K = K]) auto
  then have ok3: "vec_ok s3 ?v" by simp
  have fresh: "new_ptr = None \<or> new_ptr = Some (next_addr s)" by (rule n(4))
  have ne: "new_ptr = None \<or> new_ptr \<noteq> old" using fresh old by auto
  have "vec_ok (ArrayPtr_delete old ?s4) ?v"
    using ok3 ne by (intro vec_ok_frame[OF _ ArrayPtr_delete_frame]) auto
  moreover have "frame (v_data_ptr (vecs s this)) s (ArrayPtr_delete old ?s4)"
  proof -
    have f1: "frame new_ptr s1 s3" using w by (rule writes_frame)
    have "next_addr s \<le> next_addr s1" by (rule n(5))
    moreover have "bufs s3 a = bufs s a" if "a < next_addr s" for a
    proof -
      have "Some a \<noteq> new_ptr" using fresh that by auto
      then have "bufs s3 a = bufs s1 a" using w by (simp add: writes_other)
      also have "\<dots> = bufs s a" using n(2)[of None] that n(5) by (simp add: frame_def)
      finally show ?thesis .
    qed
    moreover have "next_addr s3 = next_addr s1" using w by (simp add: writes_same)
    ultimately have "frame (v_data_ptr (vecs s this)) s s3" by (simp add: frame_def)
    moreover have "frame (v_data_ptr (vecs s this)) s3 (ArrayPtr_delete old ?s4)"
    proof (cases old)
      case None
      then show ?thesis by (simp add: frame_def)
    next
      case (Some a)
      with old have "v_data_ptr (vecs s this) = Some a" by auto
      with Some show ?thesis by (simp add: frame_def)
    qed
    ultimately show ?thesis by (rule frame_trans)
  qed
  moreover have "vecs s3 = vecs s" using w n(3) by (simp add: writes_same)
  ultimately show ?thesis using fresh by (auto simp: updates_def)
qed

lemma state_ok_updates:
  assumes ok: "state_ok s" and u: "updates this s s'"
  shows "state_ok s'"
proof -
  from u have okt: "vec_ok s' (vecs s' this)"
    and fr: "frame (v_data_ptr (vecs s this)) s s'"
    and oth: "\<And>j. j \<noteq> this \<Longrightarrow> vecs s' j = vecs s j"
    and ptr: "v_data_ptr (vecs s' this) = v_data_ptr (vecs s this) \<or>
       v_data_ptr (vecs s' this) = None \<or>
       (\<exists>a. v_data_ptr (vecs s' this) = Some a \<and> next_addr s \<le> a)"
    by (auto simp: updates_def)
  from ok have oks: "\<And>i. vec_ok s (vecs s i)"
    and uniq: "\<And>i j a. v_data_ptr (vecs s i) = Some a \<Longrightarrow> v_data_ptr (vecs s j) = Some a \<Longrightarrow> i = j"
    by (auto simp: state_ok_def)
  have lt: "a < next_addr s" if "v_data_ptr (vecs s i) = Some a" for i a
    using oks[of i] that by (simp add: vec_ok_def)
  have "vec_ok s' (vecs s' i)" for i
  proof (cases "i = this")
    case True
    then show ?thesis using okt by simp
  next
    case False
    have "v_data_ptr (vecs s i) = None \<or> v_data_ptr (vecs s i) \<noteq> v_data_ptr (vecs s this)"
      using uniq[of i _ this] False by (cases "v_data_ptr (vecs s i)") auto
    with oks[of i] fr have "vec_ok s' (vecs s i)" by (rule vec_ok_frame)
    then show ?thesis using oth[OF False] by simp
  qed
  moreover have "i = j"
    if "v_data_ptr (vecs s' i) = Some a" and "v_data_ptr (vecs s' j) = Some a" for i j a
  proof (cases "i = this"; cases "j = this")
    assume "i = this" "j = this" then show ?thesis by simp
  next
    assume i: "i = this" and j: "j \<noteq> this"
    from that(2) oth[OF j] have pj: "v_data_ptr (vecs s j) = Some a" by simp
    from that(1) i have "v_data_ptr (vecs s' this) = Some a" by simp
    with ptr lt[OF pj] have "v_data_ptr (vecs s this) = Some a" by auto
    with pj uniq have "this = j" by blast
    with j show ?thesis by simp
  next
    assume i: "i \<noteq> this" and j: "j = this"
    from that(1) oth[OF i] have pi: "v_data_ptr (vecs s i) = Some a" by simp
    from that(2) j have "v_data_ptr (vecs s' this) = Some a" by simp
    with ptr lt[OF pi] have "v_data_ptr (vecs s this) = Some a" by auto
    with pi uniq have "this = i" by blast
    with i show ?thesis by simp
  next
    assume i: "i \<noteq> this" and j: "j \<noteq> this"
    with that oth show ?thesis using uniq by auto
  qed
  ultimately show ?thesis unfolding state_ok_def by blast
qed

subsection \<open>Every member function updates its object\<close>

lemma vec_ok_sizes:
  "vec_ok s v \<Longrightarrow> v_size v \<le> v_capacity v \<and> v_capacity v \<le> max_slots"
  by (simp add: vec_ok_def)

lemma vec_ok_old:
  "vec_ok s v \<Longrightarrow> v_data_ptr v = None \<or> (\<exists>a. v_data_ptr v = Some a \<and> a < next_addr s)"
  by (auto simp: vec_ok_def split: option.splits)

lemma set_buf_set_vec: "set_buf a b (set_vec t v s) = set_vec t v (set_buf a b s)"
  by (simp add: set_buf_def set_vec_def)

lemma writes_set_vec:
  assumes "writes p K (set_vec t v s) s'"
  obtains s3 where "writes p K s s3" and "s' = set_vec t v s3"
proof (cases "s' = set_vec t v s \<and> K = {}")
  case True
  then show ?thesis using that[of s] by (simp add: writes_refl)
next
  case False
  with assms obtain a bd b' where 1: "p = Some a" "bufs s a = Some bd"
      "s' = set_buf a b' (set_vec t v s)"
      "length b' = length bd" "K \<subseteq> {..<length bd}"
      "\<forall>j<length bd. bd ! j \<noteq> None \<or> j \<in> K \<longrightarrow> b' ! j \<noteq> None"
    unfolding writes_def by auto
  then have "writes p K s (set_buf a b' s)" unfolding writes_def by blast
  then show ?thesis using that[of "set_buf a b' s"] 1(3) by (simp add: set_buf_set_vec)
qed

lemma PopBack_updates:
  assumes ok: "vec_ok s (vecs s this)" and r: "PopBack this s = Inr s'"
  shows "updates this s s'"
proof -
  from r have s': "s' = set_vec this ((vecs s this)\<lparr>v_size := v_size (vecs s this) - 1\<rparr>) s"
    by (simp add: PopBack_def Let_def split: if_splits)
  from vec_ok_sizes[OF ok] have "v_size (vecs s this) - 1 \<le> v_capacity (vecs s this)" by arith
  from inplace_updates[OF ok writes_refl this] show ?thesis unfolding s' by auto
qed

lemma Clear_updates:
  assumes ok: "vec_ok s (vecs s this)"
  shows "updates this s (Clear this s)"
  using inplace_updates[OF ok writes_refl, of 0] by (simp add: Clear_def)

lemma PushBack_updates:
  assumes ok: "vec_ok s (vecs s this)" and r: "PushBack this val s = Inr s'"
  shows "updates this s s'"
proof (cases "v_size (vecs s this) \<noteq> v_capacity (vecs s this)")
  case True
  let ?v = "vecs s this"
  from vec_ok_sizes[OF ok] True have sz: "v_size ?v + 1 \<le> v_capacity ?v"
    and "v_size ?v + 1 \<le> 2 * max_slots + 1" by simp_all
  then have st: "size_t (Suc (v_size ?v)) = Suc (v_size ?v)" by (simp add: size_t_id)
  from r True obtain s1 where w: "store (v_data_ptr ?v) (v_size ?v) val s = Inr s1"
    and s': "s' = set_vec this (?v\<lparr>v_size := v_size ?v + 1\<rparr>) s1"
    by (auto simp: PushBack_def Let_def bind_err_eq_Inr st)
  have cover: "{..<v_size ?v + 1} \<subseteq> {..<v_size ?v} \<union> {v_size ?v}" by auto
  from inplace_updates[OF ok store_writes[OF w] sz cover] show ?thesis unfolding s' .
next
  case False
  let ?v = "vecs s this"
  let ?nc = "if v_capacity ?v = 0 then 1 else size_t (v_capacity ?v * 2)"
  from vec_ok_sizes[OF ok] False have eq: "v_size ?v = v_capacity ?v"
    and cap: "v_capacity ?v \<le> max_slots" by simp_all
  then have st: "size_t (Suc (v_size ?v)) = Suc (v_size ?v)"
    and st2: "size_t (v_capacity ?v * 2) = v_capacity ?v * 2" by (simp_all add: size_t_id)
  from r False obtain new_ptr s1 s2 s3 where new: "ArrayPtr_new ?nc s = Inr (new_ptr, s1)"
    and c: "std_copy (v_data_ptr ?v) 0 (v_size ?v) new_ptr 0 s1 = Inr s2"
    and w: "store new_ptr (v_size ?v) val s2 = Inr s3"
    and s': "s' = ArrayPtr_delete (v_data_ptr ?v)
       (set_vec this \<lparr>v_data_ptr = new_ptr, v_size = v_size ?v + 1, v_capacity = ?nc\<rparr> s3)"
    by (auto simp: PushBack_def Let_def bind_err_eq_Inr st vec_upd_all)
  from writes_trans[OF std_copy_writes[OF c] store_writes[OF w]]
  have ww: "writes new_ptr ({0..<0 + v_size ?v} \<union> {v_size ?v}) s1 s3" .
  have sz: "v_size ?v + 1 \<le> ?nc" using eq st2 by auto
  have cover: "{..<v_size ?v + 1} \<subseteq> {0..<0 + v_size ?v} \<union> {v_size ?v}" by auto
  from vec_ok_old[OF ok]
  have old: "v_data_ptr ?v = None \<or> (v_data_ptr ?v = v_data_ptr (vecs s this) \<and>
      (\<exists>a. v_data_ptr ?v = Some a \<and> a < next_addr s))" by auto
  from realloc_updates[OF new ww sz cover old] show ?thesis unfolding s' .
qed

lemma PushBack_move_eq: "PushBack_move this val s = PushBack this val s"
  by (simp add: PushBack_move_def PushBack_def)

lemma Erase_updates:
  assumes ok: "vec_ok s (vecs s this)" and r: "Erase this pos s = Inr (p, s')"
  shows "updates this s s'"
proof -
  let ?v = "vecs s this"
  from r have n: "snd pos < v_size ?v"
    by (auto simp: Erase_def Let_def split: if_splits)
  with r obtain s1 where c: "std_copy (v_data_ptr ?v) (snd pos + 1) (v_size ?v - (snd pos + 1))
       (v_data_ptr ?v) (snd pos) s = Inr s1"
    and s': "s' = set_vec this (?v\<lparr>v_size := v_size ?v - 1\<rparr>) s1"
    by (auto simp: Erase_def Let_def bind_err_eq_Inr split: if_splits)
  from vec_ok_sizes[OF ok] have sz: "v_size ?v - 1 \<le> v_capacity ?v" by arith
  have cover: "{..<v_size ?v - 1} \<subseteq> {..<v_size ?v} \<union>
      {snd pos..<snd pos + (v_size ?v - (snd pos + 1))}" by auto
  from inplace_updates[OF ok std_copy_writes[OF c] sz cover] show ?thesis unfolding s' .
qed

lemma updates_refl: "vec_ok s (vecs s this) \<Longrightarrow> updates this s s"
  by (simp add: updates_def frame_refl)

lemma Insert_move_updates:
  assumes ok: "vec_ok s (vecs s this)" and r: "Insert_move this pos val s = Inr (p, s')"
  shows "updates this s s'"
proof (cases "v_size (vecs s this) \<noteq> v_capacity (vecs s this)")
  case True
  let ?v = "vecs s this"
  let ?n = "snd pos"
  from r have n: "?n \<le> v_size ?v"
    by (auto simp: Insert_move_def Let_def split: if_splits)
  from vec_ok_sizes[OF ok] True have sz: "v_size ?v + 1 \<le> v_capacity ?v"
    and "v_size ?v + 1 \<le> 2 * max_slots + 1" by simp_all
  then have st: "size_t (Suc (v_size ?v)) = Suc (v_size ?v)" by (simp add: size_t_id)
  from r True n obtain s1 s2 where
    c: "std_copy_backward (v_data_ptr ?v) ?n (v_size ?v - ?n) (v_data_ptr ?v) (v_size ?v + 1) s = Inr s1"
    and w: "store (v_data_ptr ?v) ?n val s1 = Inr s2"
    and s': "s' = set_vec this (?v\<lparr>v_size := v_size ?v + 1\<rparr>) s2"
    by (auto simp: Insert_move_def Let_def bind_err_eq_Inr st split: if_splits)
  from std_copy_backward_writes[OF c]
  have w1: "writes (v_data_ptr ?v) {v_size ?v + 1 - (v_size ?v - ?n)..<v_size ?v + 1} s s1" by simp
  from writes_trans[OF w1 store_writes[OF w]]
  have ww: "writes (v_data_ptr ?v) ({v_size ?v + 1 - (v_size ?v - ?n)..<v_size ?v + 1} \<union> {?n}) s s2" .
  have cover: "{..<v_size ?v + 1} \<subseteq> {..<v_size ?v} \<union>
     ({v_size ?v + 1 - (v_size ?v - ?n)..<v_size ?v + 1} \<union> {?n})" using n by auto
  from inplace_updates[OF ok ww sz cover] show ?thesis unfolding s' .
next
  case False
  let ?v = "vecs s this"
  let ?n = "snd pos"
  let ?nc = "if v_capacity ?v = 0 then 1 else size_t (v_capacity ?v * 2)"
  from r have n: "?n \<le> v_size ?v"
    by (auto simp: Insert_move_def Let_def split: if_splits)
  from vec_ok_sizes[OF ok] False have eq: "v_size ?v = v_capacity ?v"
    and cap: "v_capacity ?v \<le> max_slots" by simp_all
  then have st: "size_t (Suc (v_size ?v)) = Suc (v_size ?v)"
    and st': "size_t (Suc (v_capacity ?v)) = Suc (v_capacity ?v)"
    and st0: "size_t (Suc 0) = Suc 0"
    and st2: "size_t (v_capacity ?v * 2) = v_capacity ?v * 2" by (simp_all add: size_t_id)
  from r False n obtain new_ptr s1 s2 s3 s4 where new: "ArrayPtr_new ?nc s = Inr (new_ptr, s1)"
    and c1: "std_copy (v_data_ptr ?v) 0 ?n new_ptr 0 s1 = Inr s2"
    and w: "store new_ptr ?n val s2 = Inr s3"
    and c2: "std_copy (v_data_ptr ?v) ?n (v_size ?v - ?n) new_ptr (?n + 1) s3 = Inr s4"
    and s': "s' = ArrayPtr_delete (v_data_ptr ?v)
       (set_vec this \<lparr>v_data_ptr = new_ptr, v_size = v_size ?v + 1, v_capacity = ?nc\<rparr> s4)"
    by (auto simp: Insert_move_def Let_def bind_err_eq_Inr st st' st0 vec_upd_all split: if_splits)
  from writes_trans[OF writes_trans[OF std_copy_writes[OF c1] store_writes[OF w]] std_copy_writes[OF c2]]
  have ww: "writes new_ptr ({0..<0 + ?n} \<union> {?n} \<union> {?n + 1..<?n + 1 + (v_size ?v - ?n)}) s1 s4" .
  have sz: "v_size ?v + 1 \<le> ?nc" using eq st2 by auto
  have cover: "{..<v_size ?v + 1} \<subseteq> {0..<0 + ?n} \<union> {?n} \<union> {?n + 1..<?n + 1 + (v_size ?v - ?n)}"
    using n by auto
  from vec_ok_old[OF ok]
  have old: "v_data_ptr ?v = None \<or> (v_data_ptr ?v = v_data_ptr (vecs s this) \<and>
      (\<exists>a. v_data_ptr ?v = Some a \<and> a < next_addr s))" by auto
  from realloc_updates[OF new ww sz cover old] show ?thesis unfolding s' .
qed

lemma Reserve_updates:
  assumes ok: "vec_ok s (vecs s this)" and r: "Reserve this n s = Inr s'"
  shows "updates this s s'"
proof (cases "v_capacity (vecs s this) < n")
  case False
  with r have "s' = s" by (simp add: Reserve_def Let_def)
  with ok show ?thesis by (simp add: updates_refl)
next
  case True
  let ?v = "vecs s this"
  from r True obtain new_ptr s1 s2 where new: "ArrayPtr_new n s = Inr (new_ptr, s1)"
    and c: "std_copy (v_data_ptr ?v) 0 (v_size ?v) new_ptr 0 s1 = Inr s2"
    and s': "s' = ArrayPtr_delete (v_data_ptr ?v)
       (set_vec this \<lparr>v_data_ptr = new_ptr, v_size = v_size ?v, v_capacity = n\<rparr> s2)"
    by (auto simp: Reserve_def Let_def bind_err_eq_Inr vec_upd_ptr_cap)
  have sz: "v_size ?v \<le> n" using vec_ok_sizes[OF ok] True by simp
  have cover: "{..<v_size ?v} \<subseteq> {0..<0 + v_size ?v}" by auto
  from vec_ok_old[OF ok]
  have old: "v_data_ptr ?v = None \<or> (v_data_ptr ?v = v_data_ptr (vecs s this) \<and>
      (\<exists>a. v_data_ptr ?v = Some a \<and> a < next_addr s))" by auto
  from realloc_updates[OF new std_copy_writes[OF c] sz cover old] show ?thesis unfolding s' .
qed

lemma Resize_updates:
  assumes ok: "vec_ok s (vecs s this)" and r: "Resize dflt this n s = Inr s'"
  shows "updates this s s'"
proof -
  let ?v = "vecs s this"
  consider (shrink) "n \<le> v_size ?v" | (fill) "v_size ?v < n" "n \<le> v_capacity ?v"
    | (grow) "v_size ?v < n" "v_capacity ?v < n" by linarith
  then show ?thesis
  proof cases
    case shrink
    with r have s': "s' = set_vec this (?v\<lparr>v_size := n\<rparr>) s"
      by (simp add: Resize_def Let_def)
    have sz: "n \<le> v_capacity ?v" using vec_ok_sizes[OF ok] shrink by simp
    have cover: "{..<n} \<subseteq> {..<v_size ?v} \<union> {}" using shrink by auto
    from inplace_updates[OF ok writes_refl sz cover] show ?thesis unfolding s' .
  next
    case fill
    with r obtain s1 where g: "std_generate (v_data_ptr ?v) (v_size ?v) (n - v_size ?v)
        (\<lambda>u :: unit. (dflt, u)) () s = Inr s1"
      and s': "s' = set_vec this (?v\<lparr>v_size := n\<rparr>) s1"
      by (auto simp: Resize_def Let_def bind_err_eq_Inr)
    have cover: "{..<n} \<subseteq> {..<v_size ?v} \<union> {v_size ?v..<v_size ?v + (n - v_size ?v)}"
      using fill by auto
    from inplace_updates[OF ok std_generate_writes[OF g] fill(2) cover] show ?thesis unfolding s' .
  next
    case grow
    let ?nc = "if n \<le> size_t (v_capacity ?v * 2) then size_t (v_capacity ?v * 2) else n"
    from r grow obtain new_ptr s1 s2 s3 where new: "ArrayPtr_new ?nc s = Inr (new_ptr, s1)"
      and c: "std_copy (v_data_ptr ?v) 0 (v_size ?v) new_ptr 0 s1 = Inr s2"
      and g: "std_generate new_ptr (v_size ?v) (n - v_size ?v) (\<lambda>u :: unit. (dflt, u)) () s2 = Inr s3"
      and s': "s' = ArrayPtr_delete (v_data_ptr ?v)
         (set_vec this \<lparr>v_data_ptr = new_ptr, v_size = n, v_capacity = ?nc\<rparr> s3)"
      by (auto simp: Resize_def Let_def bind_err_eq_Inr vec_upd_all)
    from writes_trans[OF std_copy_writes[OF c] std_generate_writes[OF g]]
    have ww: "writes new_ptr ({0..<0 + v_size ?v} \<union> {v_size ?v..<v_size ?v + (n - v_size ?v)}) s1 s3" .
    have sz: "n \<le> ?nc" by simp
    have cover: "{..<n} \<subseteq> {0..<0 + v_size ?v} \<union> {v_size ?v..<v_size ?v + (n - v_size ?v)}"
      using grow by auto
    from vec_ok_old[OF ok]
    have old: "v_data_ptr ?v = None \<or> (v_data_ptr ?v = v_data_ptr (vecs s this) \<and>
        (\<exists>a. v_data_ptr ?v = Some a \<and> a < next_addr s))" by auto
    from realloc_updates[OF new ww sz cover old] show ?thesis unfolding s' .
  qed
qed

lemma construct_updates:
  assumes new: "ArrayPtr_new n s = Inr (p, s1)"
    and w: "writes p {0..<0 + n} (set_vec this \<lparr>v_data_ptr = p, v_size = n, v_capacity = n\<rparr> s1) s'"
  shows "updates this s s'"
proof -
  from w obtain s3 where w3: "writes p {0..<0 + n} s1 s3"
    and s': "s' = set_vec this \<lparr>v_data_ptr = p, v_size = n, v_capacity = n\<rparr> s3"
    by (rule writes_set_vec)
  have "{..<n} \<subseteq> {0..<0 + n}" by auto
  from realloc_updates[OF new w3 order_refl this, of None this] show ?thesis unfolding s' by simp
qed

lemma SimpleVector_default_updates: "updates this s (SimpleVector_default this s)"
  by (simp add: SimpleVector_default_def updates_def frame_def vec_ok_def empty_vec_def)

lemma SimpleVector_destroy_updates: "updates this s (SimpleVector_destroy this s)"
  using ArrayPtr_delete_frame[of "v_data_ptr (vecs s this)" s]
  by (simp add: SimpleVector_destroy_def updates_def frame_def vec_ok_def empty_vec_def)

lemma SimpleVector_size_updates:
  assumes "SimpleVector_size dflt this n s = Inr s'" shows "updates this s s'"
proof -
  from assms obtain p s1 where new: "ArrayPtr_new n s = Inr (p, s1)"
    and g: "std_generate p 0 n (\<lambda>u :: unit. (dflt, u)) ()
       (set_vec this \<lparr>v_data_ptr = p, v_size = n, v_capacity = n\<rparr> s1) = Inr s'"
    by (auto simp: SimpleVector_size_def bind_err_eq_Inr)
  from construct_updates[OF new std_generate_writes[OF g]] show ?thesis .
qed

lemma SimpleVector_fill_updates:
  assumes "SimpleVector_fill this n x s = Inr s'" shows "updates this s s'"
proof -
  from assms obtain p s1 where new: "ArrayPtr_new n s = Inr (p, s1)"
    and g: "std_fill p 0 n x
       (set_vec this \<lparr>v_data_ptr = p, v_size = n, v_capacity = n\<rparr> s1) = Inr s'"
    by (auto simp: SimpleVector_fill_def bind_err_eq_Inr)
  from construct_updates[OF new std_fill_writes[OF g]] show ?thesis .
qed

lemma SimpleVector_fill_move_updates:
  assumes "SimpleVector_fill_move moved this n x s = Inr s'" shows "updates this s s'"
proof -
  from assms obtain p s1 where new: "ArrayPtr_new n s = Inr (p, s1)"
    and g: "std_generate p 0 n (\<lambda>v. (v, moved v)) x
       (set_vec this \<lparr>v_data_ptr = p, v_size = n, v_capacity = n\<rparr> s1) = Inr s'"
    by (auto simp: SimpleVector_fill_move_def bind_err_eq_Inr)
  from construct_updates[OF new std_generate_writes[OF g]] show ?thesis .
qed

lemma SimpleVector_init_updates:
  assumes "SimpleVector_init this xs s = Inr s'" shows "updates this s s'"
proof -
  from assms obtain p s1 where new: "ArrayPtr_new (length xs) s = Inr (p, s1)"
    and g: "std_copy_init xs p 0
       (set_vec this \<lparr>v_data_ptr = p, v_size = length xs, v_capacity = length xs\<rparr> s1) = Inr s'"
    by (auto simp: SimpleVector_init_def bind_err_eq_Inr)
  from construct_updates[OF new std_copy_init_writes[OF g]] show ?thesis .
qed

lemma SimpleVector_reserved_updates:
  assumes "SimpleVector_reserved this r s = Inr s'" shows "updates this s s'"
proof -
  from assms obtain p s1 where new: "ArrayPtr_new (proxy_GetCapacity r) s = Inr (p, s1)"
    and s': "s' = set_vec this \<lparr>v_data_ptr = p, v_size = 0, v_capacity = proxy_GetCapacity r\<rparr> s1"
    by (auto simp: SimpleVector_reserved_def bind_err_eq_Inr)
  have "{..<0::nat} \<subseteq> {}" by simp
  from realloc_updates[OF new writes_refl _ this, of None this] show ?thesis unfolding s' by simp
qed

subsection \<open>Well-formed states are closed under the operations\<close>

lemma size_t_0 [simp]: "size_t 0 = 0"
  by (simp add: size_t_def)

lemma copy_construct_new:
  assumes "copy_construct other s = Inr (v, s1)"
  obtains new_ptr s0 where "ArrayPtr_new (v_size other) s = Inr (new_ptr, s0)"
    and "writes new_ptr {0..<0 + v_size other} s0 s1"
    and "v = \<lparr>v_data_ptr = new_ptr, v_size = v_size other, v_capacity = v_size other\<rparr>"
proof (cases "v_size other = 0")
  case True
  with assms have "s1 = s" and "v = \<lparr>v_data_ptr = None, v_size = 0, v_capacity = 0\<rparr>"
    by (simp_all add: copy_construct_def Let_def empty_vec_def)
  moreover have "ArrayPtr_new (v_size other) s = Inr (None, s)"
    using True by (simp add: ArrayPtr_new_def)
  ultimately show ?thesis using that[of None s] True by (simp add: writes_refl)
next
  case False
  with assms obtain new_ptr s0 where new: "ArrayPtr_new (v_size other) s = Inr (new_ptr, s0)"
    and c: "std_copy (v_data_ptr other) 0 (v_size other) new_ptr 0 s0 = Inr s1"
    and v: "v = \<lparr>v_data_ptr = new_ptr, v_size = v_size other, v_capacity = v_size other\<rparr>"
    by (auto simp: copy_construct_def Let_def empty_vec_def bind_err_eq_Inr)
  from that[OF new std_copy_writes[OF c] v] show ?thesis .
qed

lemma SimpleVector_copy_updates:
  assumes "SimpleVector_copy this other s = Inr s'" shows "updates this s s'"
proof -
  from assms obtain v s1 where cc: "copy_construct (vecs s other) s = Inr (v, s1)"
    and s': "s' = set_vec this v s1"
    by (auto simp: SimpleVector_copy_def bind_err_eq_Inr)
  from cc obtain new_ptr s0 where new: "ArrayPtr_new (v_size (vecs s other)) s = Inr (new_ptr, s0)"
    and w: "writes new_ptr {0..<0 + v_size (vecs s other)} s0 s1"
    and v: "v = \<lparr>v_data_ptr = new_ptr, v_size = v_size (vecs s other),
              v_capacity = v_size (vecs s other)\<rparr>"
    by (rule copy_construct_new)
  have "{..<v_size (vecs s other)} \<subseteq> {0..<0 + v_size (vecs s other)}" by auto
  from realloc_updates[OF new w order_refl this, of None this] show ?thesis
    unfolding s' v by simp
qed

lemma assign_copy_updates:
  assumes ok: "vec_ok s (vecs s this)" and r: "assign_copy this rhs s = Inr s'"
  shows "updates this s s'"
proof (cases "this = rhs")
  case True
  with r have "s' = s" by (simp add: assign_copy_def)
  with ok show ?thesis by (simp add: updates_refl)
next
  case False
  with r obtain v s1 where cc: "copy_construct (vecs s rhs) s = Inr (v, s1)"
    and s': "s' = ArrayPtr_delete (v_data_ptr (vecs s1 this)) (set_vec this v s1)"
    by (auto simp: assign_copy_def bind_err_eq_Inr)
  from cc obtain new_ptr s0 where new: "ArrayPtr_new (v_size (vecs s rhs)) s = Inr (new_ptr, s0)"
    and w: "writes new_ptr {0..<0 + v_size (vecs s rhs)} s0 s1"
    and v: "v = \<lparr>v_data_ptr = new_ptr, v_size = v_size (vecs s rhs),
              v_capacity = v_size (vecs s rhs)\<rparr>"
    by (rule copy_construct_new)
  have same: "vecs s1 = vecs s" using ArrayPtr_new_ok(3)[OF new] w by (simp add: writes_same)
  have cover: "{..<v_size (vecs s rhs)} \<subseteq> {0..<0 + v_size (vecs s rhs)}" by auto
  from vec_ok_old[OF ok]
  have old: "v_data_ptr (vecs s this) = None \<or> (v_data_ptr (vecs s this) = v_data_ptr (vecs s this) \<and>
      (\<exists>a. v_data_ptr (vecs s this) = Some a \<and> a < next_addr s))" by auto
  from realloc_updates[OF new w order_refl cover old] show ?thesis
    unfolding s' v same .
qed

lemma vec_ok_swap [simp]: "vec_ok (swap a b s) v = vec_ok s v"
  by (simp add: vec_ok_def split: option.splits)

lemma state_ok_swap: "state_ok s \<Longrightarrow> state_ok (swap a b s)"
  unfolding state_ok_def by (simp add: swap_vecs) metis

lemma state_ok_SimpleVector_move:
  assumes "state_ok s" shows "state_ok (SimpleVector_move this other s)"
proof -
  have "state_ok (set_vec this empty_vec s)"
    using state_ok_updates[OF assms SimpleVector_default_updates[of this s]]
    by (simp add: SimpleVector_default_def)
  then show ?thesis unfolding SimpleVector_move_def by (rule state_ok_swap)
qed

lemma state_ok_assign_move: "state_ok s \<Longrightarrow> state_ok (assign_move this rhs s)"
  by (simp add: assign_move_def state_ok_swap)

lemma state_ok_vec: "state_ok s \<Longrightarrow> vec_ok s (vecs s i)"
  by (simp add: state_ok_def)

text \<open>Every operation either updates one object or exchanges the members of two.\<close>

lemma step_effect:
  assumes ok: "state_ok s" and r: "step dflt moved x s = Inr s'"
  shows "(\<exists>this. objects x = [this] \<and> updates this s s') \<or>
         (\<exists>a b. objects x = [a, b] \<and> bufs s' = bufs s \<and> next_addr s' = next_addr s \<and>
            state_ok s' \<and> (\<forall>j. j \<noteq> a \<and> j \<noteq> b \<longrightarrow> vecs s' j = vecs s j))"
proof (cases x)
  case (Construct_default this)
  with r show ?thesis by (auto simp: SimpleVector_default_updates)
next
  case (Construct_size this n)
  with r show ?thesis by (auto simp: SimpleVector_size_updates)
next
  case (Construct_fill this n v)
  with r show ?thesis by (auto simp: SimpleVector_fill_updates)
next
  case (Construct_fill_move this n v)
  with r show ?thesis by (auto simp: SimpleVector_fill_move_updates)
next
  case (Construct_init this xs)
  with r show ?thesis by (auto simp: SimpleVector_init_updates)
next
  case (Construct_copy this other)
  with r show ?thesis by (auto simp: SimpleVector_copy_updates)
next
  case (Construct_move this other)
  with r ok show ?thesis
    by (auto simp: state_ok_SimpleVector_move) (simp_all add: SimpleVector_move_def swap_vecs)
next
  case (Construct_reserved this p)
  with r show ?thesis by (auto simp: SimpleVector_reserved_updates)
next
  case (Destroy this)
  with r show ?thesis by (auto simp: SimpleVector_destroy_updates)
next
  case (Assign_copy this rhs)
  with r state_ok_vec[OF ok, of this] show ?thesis by (auto simp: assign_copy_updates)
next
  case (Assign_move this rhs)
  with r ok show ?thesis
    by (auto simp: state_ok_assign_move) (simp_all add: assign_move_def swap_vecs)
next
  case (Call_swap this other)
  with r ok show ?thesis
    by (auto simp: state_ok_swap) (simp_all add: swap_vecs)
next
  case (Call_PopBack this)
  with r state_ok_vec[OF ok, of this] show ?thesis by (auto simp: PopBack_updates)
next
  case (Call_PushBack this v)
  with r state_ok_vec[OF ok, of this] show ?thesis by (auto simp: PushBack_updates)
next
  case (Call_PushBack_move this v)
  with r state_ok_vec[OF ok, of this] show ?thesis
    by (auto simp: PushBack_move_eq PushBack_updates)
next
  case (Call_Erase this pos)
  with r state_ok_vec[OF ok, of this] show ?thesis
    by (auto simp: bind_err_eq_Inr Erase_updates)
next
  case (Call_Insert_move this pos v)
  with r state_ok_vec[OF ok, of this] show ?thesis
    by (auto simp: bind_err_eq_Inr Insert_move_updates)
next
  case (Call_Reserve this n)
  with r state_ok_vec[OF ok, of this] show ?thesis by (auto simp: Reserve_updates)
next
  case (Call_Resize this n)
  with r state_ok_vec[OF ok, of this] show ?thesis by (auto simp: Resize_updates)
next
  case (Call_Clear this)
  with r state_ok_vec[OF ok, of this] show ?thesis by (auto simp: Clear_updates)
qed

lemma step_state_ok:
  assumes "state_ok s" and "step dflt moved x s = Inr s'"
  shows "state_ok s'"
  using step_effect[OF assms] assms(1) by (auto intro: state_ok_updates)

lemma state_ok_init: "state_ok init_state"
  by (simp add: state_ok_def init_state_def vec_ok_def empty_vec_def)

lemma reachable_state_ok: "reachable dflt moved s \<Longrightarrow> state_ok s"
  by (induction rule: reachable.induct) (auto intro: state_ok_init step_state_ok)

lemma run_reachable:
  "reachable dflt moved s \<Longrightarrow> run dflt moved xs s = Inr s' \<Longrightarrow> reachable dflt moved s'"
proof (induction xs arbitrary: s)
  case Nil
  then show ?case by simp
next
  case (Cons x xs)
  then obtain s1 where "step dflt moved x s = Inr s1" and "run dflt moved xs s1 = Inr s'"
    by (auto simp: bind_err_eq_Inr)
  with Cons show ?case by (blast intro: reachable_step)
qed

lemma ex_one_reachable: "reachable dflt moved ex_one"
proof -
  have "run dflt moved [Construct_init 0 [1, 2, 3]] init_state = Inr ex_one"
    using ex_one_constructed by simp
  with reachable_init show ?thesis by (rule run_reachable)
qed

lemma ex_two_reachable: "reachable dflt moved ex_two"
proof -
  have "run dflt moved [Construct_init 0 [1], Construct_init 1 [2, 3]] init_state = Inr ex_two"
    using ex_two_constructed by (simp add: bind_err_eq_Inr)
  with reachable_init show ?thesis by (rule run_reachable)
qed

subsection \<open>What the copies compute\<close>

lemma set_buf_triv: "bufs s d = Some bd \<Longrightarrow> set_buf d bd s = s"
  by (simp add: set_buf_def map_upd_triv)

lemma load_Some:
  "bufs s a = Some b \<Longrightarrow> i < length b \<Longrightarrow> b ! i = Some x \<Longrightarrow> load (Some a) i s = Inr x"
  by (simp add: load_def)

lemma store_Some:
  "bufs s a = Some b \<Longrightarrow> i < length b \<Longrightarrow>
   store (Some a) i x s = Inr (set_buf a (b[i := Some x]) s)"
  by (simp add: store_def)

lemma std_copy_distinct:
  "bufs s a = Some bs \<Longrightarrow> bufs s d = Some bd \<Longrightarrow> a \<noteq> d \<Longrightarrow>
   i + c \<le> length bs \<Longrightarrow> k + c \<le> length bd \<Longrightarrow> None \<notin> set (take c (drop i bs)) \<Longrightarrow>
   std_copy (Some a) i c (Some d) k s =
     Inr (set_buf d (take k bd @ take c (drop i bs) @ drop (k + c) bd) s)"
proof (induction c arbitrary: i k s bd)
  case 0
  have "take k bd @ take 0 (drop i bs) @ drop (k + 0) bd = bd" by simp
  then show ?case using set_buf_triv[OF 0(2)] by (simp only: std_copy.simps)
next
  case (Suc c)
  from Suc.prems have i: "i < length bs" and k: "k < length bd" by simp_all
  have tk: "take (Suc c) (drop i bs) = bs ! i # take c (drop (Suc i) bs)"
    using i by (simp add: Cons_nth_drop_Suc[symmetric])
  with Suc.prems(6) have nn: "None \<notin> set (bs ! i # take c (drop (Suc i) bs))"
    by simp
  then have none: "None \<notin> set (take c (drop (Suc i) bs))"
    by simp
  from nn obtain x where x: "bs ! i = Some x" by (cases "bs ! i") auto
  let ?s = "set_buf d (bd[k := Some x]) s"
  have ld: "load (Some a) i s = Inr x" using Suc.prems i x by (simp add: load_Some)
  have st: "store (Some d) k x s = Inr ?s" using Suc.prems k by (simp add: store_Some)
  have ih: "std_copy (Some a) (Suc i) c (Some d) (Suc k) ?s =
     Inr (set_buf d (take (Suc k) (bd[k := Some x]) @ take c (drop (Suc i) bs)
        @ drop (Suc k + c) (bd[k := Some x])) ?s)"
    using Suc.prems i k none by (intro Suc.IH) auto
  have l: "take (Suc k) (bd[k := Some x]) @ take c (drop (Suc i) bs) @ drop (Suc k + c) (bd[k := Some x])
      = take k bd @ take (Suc c) (drop i bs) @ drop (k + Suc c) bd"
    using i k x by (simp add: take_Suc_conv_app_nth Cons_nth_drop_Suc[symmetric])
  show ?case by (simp only: std_copy.simps ld st bind_err_Inr ih l set_buf_set_buf)
qed

lemma contents_length: "vec_ok s v \<Longrightarrow> length (contents v s) = v_size v"
  by (auto simp: vec_ok_def contents_def split: option.splits)

lemma contents_None: "vec_ok s v \<Longrightarrow> None \<notin> set (contents v s)"
  by (auto simp: vec_ok_def contents_def split: option.splits)

lemma contents_Some:
  "v_data_ptr v = Some a \<Longrightarrow> bufs s a = Some b \<Longrightarrow> contents v s = take (v_size v) b"
  by (simp add: contents_def)

lemma vec_ok_Some:
  assumes "vec_ok s v" and "0 < v_size v"
  obtains a b where "v_data_ptr v = Some a" and "bufs s a = Some b" and "a < next_addr s"
    and "length b = v_capacity v" and "None \<notin> set (take (v_size v) b)"
  using assms by (auto simp: vec_ok_def split: option.splits)

text \<open>Copying part of what a well-formed vector holds into another array.\<close>

lemma std_copy_from_vec:
  assumes ok: "vec_ok s v" and ic: "i + c \<le> v_size v"
    and d: "bufs s d = Some bd" and ne: "v_data_ptr v \<noteq> Some d" and kc: "k + c \<le> length bd"
  shows "std_copy (v_data_ptr v) i c (Some d) k s =
     Inr (set_buf d (take k bd @ take c (drop i (contents v s)) @ drop (k + c) bd) s)"
proof (cases "c = 0")
  case True
  then show ?thesis using set_buf_triv[OF d] by simp
next
  case False
  with ic have "0 < v_size v" by simp
  with ok obtain a b where a: "v_data_ptr v = Some a" and b: "bufs s a = Some b"
    and len: "length b = v_capacity v" and init: "None \<notin> set (take (v_size v) b)"
    by (rule vec_ok_Some)
  from vec_ok_sizes[OF ok] have le: "v_size v \<le> v_capacity v" by simp
  have c: "contents v s = take (v_size v) b" using a b by (rule contents_Some)
  have tk: "take c (drop i (take (v_size v) b)) = take c (drop i b)"
    using ic by (simp add: drop_take min_def)
  have "set (take c (drop i (take (v_size v) b))) \<subseteq> set (take (v_size v) b)"
    by (meson set_take_subset set_drop_subset subset_trans)
  with init tk have none: "None \<notin> set (take c (drop i b))" by auto
  have "std_copy (Some a) i c (Some d) k s =
     Inr (set_buf d (take k bd @ take c (drop i b) @ drop (k + c) bd) s)"
    using b d ne a ic le len kc none by (intro std_copy_distinct) auto
  then show ?thesis using a c tk by simp
qed

lemma ArrayPtr_new_Some:
  assumes "0 < n" and "n \<le> max_slots"
  obtains s1 where "ArrayPtr_new n s = Inr (Some (next_addr s), s1)"
    and "bufs s1 = (bufs s)(next_addr s \<mapsto> replicate n None)"
    and "vecs s1 = vecs s" and "next_addr s1 = Suc (next_addr s)"
proof -
  let ?s1 = "s\<lparr>bufs := (bufs s)(next_addr s \<mapsto> replicate n None),
                 next_addr := Suc (next_addr s)\<rparr>"
  have "ArrayPtr_new n s = Inr (Some (next_addr s), ?s1)"
    using assms by (simp add: ArrayPtr_new_def)
  then show ?thesis using that[of ?s1] by simp
qed

lemma copy_to_new:
  assumes ok: "vec_ok s v" and nc: "0 < nc" "nc \<le> max_slots" and sz: "v_size v \<le> nc"
  obtains s1 s2 where "ArrayPtr_new nc s = Inr (Some (next_addr s), s1)"
    and "std_copy (v_data_ptr v) 0 (v_size v) (Some (next_addr s)) 0 s1 = Inr s2"
    and "bufs s2 = (bufs s)(next_addr s \<mapsto> contents v s @ replicate (nc - v_size v) None)"
    and "vecs s2 = vecs s" and "next_addr s2 = Suc (next_addr s)"
    and "v_data_ptr v \<noteq> Some (next_addr s)"
proof -
  let ?d = "next_addr s"
  from nc obtain s1 where new: "ArrayPtr_new nc s = Inr (Some ?d, s1)"
    and b1: "bufs s1 = (bufs s)(?d \<mapsto> replicate nc None)"
    and v1: "vecs s1 = vecs s" and n1: "next_addr s1 = Suc ?d"
    by (rule ArrayPtr_new_Some)
  from vec_ok_old[OF ok] have ne: "v_data_ptr v \<noteq> Some ?d" by auto
  have "v_data_ptr v = None \<or> v_data_ptr v \<noteq> Some ?d" using ne by simp
  with ok ArrayPtr_new_ok(2)[OF new, of "Some ?d"] have ok1: "vec_ok s1 v"
    by (rule vec_ok_frame)
  have c1: "contents v s1 = contents v s"
    using ne b1 by (auto simp: contents_def split: option.splits)
  have d1: "bufs s1 ?d = Some (replicate nc None)" using b1 by simp
  have "std_copy (v_data_ptr v) 0 (v_size v) (Some ?d) 0 s1 =
     Inr (set_buf ?d (take 0 (replicate nc None) @ take (v_size v) (drop 0 (contents v s1))
        @ drop (0 + v_size v) (replicate nc None)) s1)"
    using ok1 _ d1 ne by (rule std_copy_from_vec) (simp_all add: sz)
  then have c: "std_copy (v_data_ptr v) 0 (v_size v) (Some ?d) 0 s1 =
     Inr (set_buf ?d (contents v s @ replicate (nc - v_size v) None) s1)"
    using contents_length[OF ok] c1 by simp
  show ?thesis
    using that[OF new c] b1 v1 n1 ne by simp
qed

lemma contents_set_vec [simp]: "contents v (set_vec t w s) = contents v s"
  by (simp add: contents_def split: option.splits)

lemma live_set_vec_this [simp]: "live this (set_vec this v s) = contents v s"
  by (simp add: live_def)

lemma contents_delete:
  "v_data_ptr v \<noteq> p \<Longrightarrow> contents v (ArrayPtr_delete p s) = contents v s"
  by (cases p) (auto simp: contents_def split: option.splits)

lemma live_delete:
  "v_data_ptr (vecs s this) \<noteq> p \<Longrightarrow> live this (ArrayPtr_delete p s) = live this s"
  by (simp add: live_def contents_delete)

lemma PushBack_result:
  assumes ok: "vec_ok s (vecs s this)"
    and room: "v_size (vecs s this) \<noteq> v_capacity (vecs s this) \<or>
               v_capacity (vecs s this) * 2 \<le> max_slots"
  obtains s' where "PushBack this val s = Inr s'"
    and "live this s' = live this s @ [Some val]"
    and "v_size (vecs s' this) = v_size (vecs s this) + 1"
    and "v_capacity (vecs s' this) =
          (if v_size (vecs s this) \<noteq> v_capacity (vecs s this) then v_capacity (vecs s this)
           else if v_capacity (vecs s this) = 0 then 1 else v_capacity (vecs s this) * 2)"
    and "vec_ok s' (vecs s' this)"
proof (cases "v_size (vecs s this) \<noteq> v_capacity (vecs s this)")
  case True
  let ?v = "vecs s this"
  from vec_ok_sizes[OF ok] True have lt: "v_size ?v < v_capacity ?v"
    and "v_size ?v + 1 \<le> 2 * max_slots + 1" by simp_all
  then have st: "size_t (Suc (v_size ?v)) = Suc (v_size ?v)" by (simp add: size_t_id)
  from ok lt obtain a b where a: "v_data_ptr ?v = Some a" and b: "bufs s a = Some b"
    and len: "length b = v_capacity ?v"
    by (auto simp: vec_ok_def split: option.splits)
  let ?s' = "set_vec this (?v\<lparr>v_size := v_size ?v + 1\<rparr>) (set_buf a (b[v_size ?v := Some val]) s)"
  have r: "PushBack this val s = Inr ?s'"
    using True a b len lt by (simp add: PushBack_def Let_def store_Some st)
  have "live this ?s' = live this s @ [Some val]"
    using a b len lt by (simp add: live_def contents_def take_Suc_conv_app_nth)
  moreover have "vec_ok ?s' (vecs ?s' this)"
    using PushBack_updates[OF ok r] by (simp add: updates_def)
  ultimately show ?thesis using that[OF r] True by simp
next
  case False
  let ?v = "vecs s this"
  define nc where "nc = (if v_capacity ?v = 0 then 1 else v_capacity ?v * 2)"
  let ?d = "next_addr s"
  let ?L = "contents ?v s"
  from vec_ok_sizes[OF ok] False have eq: "v_size ?v = v_capacity ?v"
    and cap: "v_capacity ?v \<le> max_slots" by simp_all
  then have st: "size_t (Suc (v_capacity ?v)) = Suc (v_capacity ?v)"
    and st2: "size_t (v_capacity ?v * 2) = v_capacity ?v * 2" by (simp_all add: size_t_id)
  have foldnc: "(if v_capacity ?v = 0 then 1 else size_t (v_capacity ?v * 2)) = nc"
    by (simp add: nc_def st2)
  have nc: "0 < nc" "nc \<le> max_slots" using room False by (auto simp: max_slots_val nc_def)
  have sz: "v_size ?v < nc" using eq by (auto simp: nc_def)
  from copy_to_new[OF ok nc] sz obtain s1 s2 where
    new: "ArrayPtr_new nc s = Inr (Some ?d, s1)"
    and c: "std_copy (v_data_ptr ?v) 0 (v_size ?v) (Some ?d) 0 s1 = Inr s2"
    and b2: "bufs s2 = (bufs s)(?d \<mapsto> ?L @ replicate (nc - v_size ?v) None)"
    and v2: "vecs s2 = vecs s" and n2: "next_addr s2 = Suc ?d"
    and ne: "v_data_ptr ?v \<noteq> Some ?d"
    by (metis less_imp_le)
  have len: "length ?L = v_size ?v" using ok by (rule contents_length)
  let ?b3 = "(?L @ replicate (nc - v_size ?v) None)[v_size ?v := Some val]"
  let ?s3 = "set_buf ?d ?b3 s2"
  have w: "store (Some ?d) (v_size ?v) val s2 = Inr ?s3"
    using b2 len sz by (intro store_Some) auto
  let ?s' = "ArrayPtr_delete (v_data_ptr ?v)
       (set_vec this \<lparr>v_data_ptr = Some ?d, v_size = v_size ?v + 1, v_capacity = nc\<rparr> ?s3)"
  have r: "PushBack this val s = Inr ?s'"
    using False new c w eq unfolding PushBack_def Let_def foldnc
    by (simp add: st vec_upd_all)
  have "take (Suc (v_size ?v)) ?b3 = ?L @ [Some val]"
    using len sz by (simp add: take_Suc_conv_app_nth nth_append)
  then have "live this ?s' = ?L @ [Some val]"
    using ne by (simp add: live_def contents_delete) (simp add: contents_def)
  moreover have "vec_ok ?s' (vecs ?s' this)"
    using PushBack_updates[OF ok r] by (simp add: updates_def)
  ultimately show ?thesis using that[OF r] False eq by (simp add: live_def nc_def)
qed

subsection \<open>The doubling rule\<close>

lemma doubling_Suc_le: "doubling n \<le> doubling (Suc n)"
  by simp

lemma doubling_mono: "m \<le> n \<Longrightarrow> doubling m \<le> doubling n"
  by (rule lift_Suc_mono_le[of doubling]) (rule doubling_Suc_le)

lemma doubling_pow2:
  "0 < n \<Longrightarrow> \<exists>k. doubling n = 2 ^ k \<and> n \<le> 2 ^ k \<and> 2 ^ k < 2 * n"
proof (induction n)
  case 0
  then show ?case by simp
next
  case (Suc n)
  show ?case
  proof (cases "n = 0")
    case True
    then have "doubling (Suc n) = 2 ^ 0" by simp
    with True show ?thesis by (intro exI[of _ 0]) simp
  next
    case False
    with Suc.IH obtain k where k: "doubling n = 2 ^ k" "n \<le> 2 ^ k" "2 ^ k < 2 * n" by auto
    show ?thesis
    proof (cases "n = doubling n")
      case True
      with k False have "doubling (Suc n) = 2 ^ Suc k" by simp
      moreover have "Suc n \<le> 2 ^ Suc k" using True k False by simp
      moreover have "(2::nat) ^ Suc k < 2 * Suc n" using True k by simp
      ultimately show ?thesis by blast
    next
      case F: False
      with k have "doubling (Suc n) = 2 ^ k" by simp
      moreover have "Suc n \<le> 2 ^ k" using F k by simp
      moreover have "(2::nat) ^ k < 2 * Suc n" using k by simp
      ultimately show ?thesis by blast
    qed
  qed
qed

lemma doubling_first_pow2:
  assumes "0 < n"
  shows "\<exists>k. doubling n = 2 ^ k \<and> n \<le> 2 ^ k \<and> (\<forall>j<k. 2 ^ j < n)"
proof -
  from doubling_pow2[OF assms] obtain k where k: "doubling n = 2 ^ k" "n \<le> 2 ^ k" "2 ^ k < 2 * n"
    by blast
  have "(2::nat) ^ j < n" if "j < k" for j
  proof -
    from that have "Suc j \<le> k" by simp
    then have "(2::nat) ^ Suc j \<le> 2 ^ k" by (rule power_increasing) simp
    with k(3) show ?thesis by simp
  qed
  with k show ?thesis by blast
qed

lemma PushBack_all_result:
  assumes "vec_ok s (vecs s this)"
    and "v_capacity (vecs s this) = doubling (v_size (vecs s this))"
    and "doubling (v_size (vecs s this) + length xs) \<le> max_slots"
  shows "\<exists>s'. PushBack_all this xs s = Inr s' \<and>
           live this s' = live this s @ map (Some \<circ> arg_value) xs \<and>
           v_size (vecs s' this) = v_size (vecs s this) + length xs \<and>
           v_capacity (vecs s' this) = doubling (v_size (vecs s this) + length xs) \<and>
           vec_ok s' (vecs s' this)"
  using assms
proof (induction xs arbitrary: s)
  case Nil
  then show ?case by simp
next
  case (Cons x xs)
  let ?v = "vecs s this"
  have "doubling (Suc (v_size ?v)) \<le> doubling (v_size ?v + length (x # xs))"
    by (rule doubling_mono) simp
  with Cons.prems(3) have d1: "doubling (Suc (v_size ?v)) \<le> max_slots" by simp
  have room: "v_size ?v \<noteq> v_capacity ?v \<or> v_capacity ?v * 2 \<le> max_slots"
    using d1 Cons.prems(2) by (auto split: if_splits)
  have call: "PushBack_call this x s = PushBack this (arg_value x) s"
    by (cases x) (simp_all add: PushBack_move_eq)
  from PushBack_result[OF Cons.prems(1) room, of "arg_value x"] obtain s1 where
    r: "PushBack_call this x s = Inr s1"
    and l: "live this s1 = live this s @ [Some (arg_value x)]"
    and sz: "v_size (vecs s1 this) = v_size ?v + 1"
    and cp: "v_capacity (vecs s1 this) =
          (if v_size ?v \<noteq> v_capacity ?v then v_capacity ?v
           else if v_capacity ?v = 0 then 1 else v_capacity ?v * 2)"
    and ok1: "vec_ok s1 (vecs s1 this)" unfolding call by blast
  have cp1: "v_capacity (vecs s1 this) = doubling (v_size (vecs s1 this))"
    using cp sz Cons.prems(2) by simp
  have b1: "doubling (v_size (vecs s1 this) + length xs) \<le> max_slots"
    using Cons.prems(3) sz by simp
  from Cons.IH[OF ok1 cp1 b1] obtain s' where
    "PushBack_all this xs s1 = Inr s'" "live this s' = live this s1 @ map (Some \<circ> arg_value) xs"
    "v_size (vecs s' this) = v_size (vecs s1 this) + length xs"
    "v_capacity (vecs s' this) = doubling (v_size (vecs s1 this) + length xs)"
    "vec_ok s' (vecs s' this)" by blast
  then show ?case using r l sz by simp
qed

subsection \<open>Shifting within one array\<close>

lemma std_copy_left:
  "bufs s a = Some b \<Longrightarrow> k \<le> i \<Longrightarrow> i + c \<le> length b \<Longrightarrow>
   None \<notin> set (take c (drop i b)) \<Longrightarrow>
   std_copy (Some a) i c (Some a) k s =
     Inr (set_buf a (take k b @ take c (drop i b) @ drop (k + c) b) s)"
proof (induction c arbitrary: i k s b)
  case 0
  have "take k b @ take 0 (drop i b) @ drop (k + 0) b = b" by simp
  then show ?case using set_buf_triv[OF 0(1)] by (simp only: std_copy.simps)
next
  case (Suc c)
  from Suc.prems have i: "i < length b" and k: "k < length b" by simp_all
  have tk: "take (Suc c) (drop i b) = b ! i # take c (drop (Suc i) b)"
    using i by (simp add: Cons_nth_drop_Suc[symmetric])
  with Suc.prems(4) have nn: "None \<notin> set (b ! i # take c (drop (Suc i) b))" by simp
  then have none: "None \<notin> set (take c (drop (Suc i) b))" by simp
  from nn obtain x where x: "b ! i = Some x" by (cases "b ! i") auto
  let ?b1 = "b[k := Some x]"
  let ?s = "set_buf a ?b1 s"
  have ld: "load (Some a) i s = Inr x" using Suc.prems i x by (simp add: load_Some)
  have st: "store (Some a) k x s = Inr ?s" using Suc.prems k by (simp add: store_Some)
  have dr: "drop (Suc i) ?b1 = drop (Suc i) b" using Suc.prems(2) by simp
  have ih: "std_copy (Some a) (Suc i) c (Some a) (Suc k) ?s =
     Inr (set_buf a (take (Suc k) ?b1 @ take c (drop (Suc i) ?b1) @ drop (Suc k + c) ?b1) ?s)"
    using Suc.prems none dr by (intro Suc.IH) auto
  have l: "take (Suc k) ?b1 @ take c (drop (Suc i) ?b1) @ drop (Suc k + c) ?b1
      = take k b @ take (Suc c) (drop i b) @ drop (k + Suc c) b"
    using i k x dr by (simp add: take_Suc_conv_app_nth Cons_nth_drop_Suc[symmetric])
  show ?case by (simp only: std_copy.simps ld st bind_err_Inr ih l set_buf_set_buf)
qed

lemma take_drop_update_beyond:
  "i + c \<le> k \<Longrightarrow> take c (drop i (b[k := y])) = take c (drop i b)"
  by (simp add: drop_update_swap)

lemma std_copy_backward_right:
  "bufs s a = Some b \<Longrightarrow> i + c \<le> k \<Longrightarrow> k \<le> length b \<Longrightarrow>
   None \<notin> set (take c (drop i b)) \<Longrightarrow>
   std_copy_backward (Some a) i c (Some a) k s =
     Inr (set_buf a (take (k - c) b @ take c (drop i b) @ drop k b) s)"
proof (induction c arbitrary: k s b)
  case 0
  have "take (k - 0) b @ take 0 (drop i b) @ drop k b = b" by simp
  then show ?case using set_buf_triv[OF 0(1)] by (simp only: std_copy_backward.simps)
next
  case (Suc c)
  from Suc.prems obtain k' where k': "k = Suc k'" by (cases k) auto
  from Suc.prems k' have ic: "i + c < length b" and kl: "k' < length b" and ik: "i + c \<le> k'"
    by simp_all
  have tk: "take (Suc c) (drop i b) = take c (drop i b) @ [b ! (i + c)]"
    using ic by (simp add: take_Suc_conv_app_nth)
  with Suc.prems(4) have nn: "None \<notin> set (take c (drop i b) @ [b ! (i + c)])" by simp
  then have none: "None \<notin> set (take c (drop i b))" by simp
  from nn obtain x where x: "b ! (i + c) = Some x" by (cases "b ! (i + c)") auto
  let ?b1 = "b[k' := Some x]"
  let ?s = "set_buf a ?b1 s"
  have ld: "load (Some a) (i + c) s = Inr x" using Suc.prems ic x by (simp add: load_Some)
  have st: "store (Some a) k' x s = Inr ?s" using Suc.prems kl by (simp add: store_Some)
  have td: "take c (drop i ?b1) = take c (drop i b)" using ik by (rule take_drop_update_beyond)
  have ih: "std_copy_backward (Some a) i c (Some a) k' ?s =
     Inr (set_buf a (take (k' - c) ?b1 @ take c (drop i ?b1) @ drop k' ?b1) ?s)"
    using ik kl none td by (intro Suc.IH) auto
  have "drop k' ?b1 = Some x # drop (Suc k') b"
    using kl by (simp add: Cons_nth_drop_Suc[symmetric])
  then have l: "take (k' - c) ?b1 @ take c (drop i ?b1) @ drop k' ?b1
      = take (Suc k' - Suc c) b @ take (Suc c) (drop i b) @ drop (Suc k') b"
    using td tk x by simp
  show ?case unfolding k'
    by (simp only: std_copy_backward.simps ld st bind_err_Inr ih l set_buf_set_buf)
qed

subsection \<open>What Erase and Insert compute\<close>

lemma frame_set_buf: "frame (Some d) s (set_buf d b s)"
  by (simp add: frame_def)

lemma contents_set_buf:
  "v_data_ptr v \<noteq> Some d \<Longrightarrow> contents v (set_buf d b s) = contents v s"
  by (auto simp: contents_def split: option.splits)

lemma vec_ok_set_buf:
  "vec_ok s v \<Longrightarrow> v_data_ptr v \<noteq> Some d \<Longrightarrow> vec_ok (set_buf d b s) v"
  by (rule vec_ok_frame[OF _ frame_set_buf]) auto

lemma take_length_append: "length xs = k \<Longrightarrow> take k (xs @ ys) = xs"
  by simp

lemma Erase_result:
  assumes ok: "vec_ok s (vecs s this)" and n: "n < v_size (vecs s this)"
  obtains s' where "Erase this (v_data_ptr (vecs s this), n) s = Inr ((v_data_ptr (vecs s this), n), s')"
    and "live this s' = take n (live this s) @ drop (Suc n) (live this s)"
    and "v_size (vecs s' this) = v_size (vecs s this) - 1"
    and "v_capacity (vecs s' this) = v_capacity (vecs s this)"
    and "v_data_ptr (vecs s' this) = v_data_ptr (vecs s this)"
    and "vec_ok s' (vecs s' this)"
proof -
  let ?v = "vecs s this"
  let ?m = "v_size ?v"
  from n have "0 < ?m" by simp
  with ok obtain a b where a: "v_data_ptr ?v = Some a" and b: "bufs s a = Some b"
    and len: "length b = v_capacity ?v" and init: "None \<notin> set (take ?m b)"
    by (rule vec_ok_Some)
  from vec_ok_sizes[OF ok] len have le: "?m \<le> length b" by simp
  have "set (take (?m - (n + 1)) (drop (n + 1) b)) \<subseteq> set (take ?m b)"
    using n by (metis Suc_eq_plus1 Suc_leI drop_take set_drop_subset)
  with init have none: "None \<notin> set (take (?m - (n + 1)) (drop (n + 1) b))" by blast
  let ?b1 = "take n b @ take (?m - (n + 1)) (drop (n + 1) b) @ drop (n + (?m - (n + 1))) b"
  have c: "std_copy (Some a) (n + 1) (?m - (n + 1)) (Some a) n s = Inr (set_buf a ?b1 s)"
    using b _ _ none by (rule std_copy_left) (use n le in simp_all)
  let ?s' = "set_vec this (?v\<lparr>v_size := ?m - 1\<rparr>) (set_buf a ?b1 s)"
  have r: "Erase this (v_data_ptr ?v, n) s = Inr ((v_data_ptr ?v, n), ?s')"
    using n a c by (simp add: Erase_def Let_def)
  have "length (take n b @ take (?m - (n + 1)) (drop (n + 1) b)) = ?m - 1"
    using n le by simp
  then have "take (?m - 1) ((take n b @ take (?m - (n + 1)) (drop (n + 1) b))
       @ drop (n + (?m - (n + 1))) b) = take n b @ take (?m - (n + 1)) (drop (n + 1) b)"
    by (rule take_length_append)
  then have "take (?m - 1) ?b1 = take n b @ take (?m - (n + 1)) (drop (n + 1) b)"
    by simp
  moreover have "take n (take ?m b) @ drop (Suc n) (take ?m b) =
      take n b @ take (?m - (n + 1)) (drop (n + 1) b)"
    using n by (simp add: drop_take min_def)
  ultimately have "live this ?s' = take n (live this s) @ drop (Suc n) (live this s)"
    using a b by (simp add: live_def contents_def)
  moreover have "vec_ok ?s' (vecs ?s' this)"
    using Erase_updates[OF ok r] by (simp add: updates_def)
  ultimately show ?thesis using that[OF r] by simp
qed

lemma Insert_move_result:
  assumes ok: "vec_ok s (vecs s this)" and n: "n \<le> v_size (vecs s this)"
    and room: "v_size (vecs s this) \<noteq> v_capacity (vecs s this) \<or>
               v_capacity (vecs s this) * 2 \<le> max_slots"
  obtains s' where
    "Insert_move this (v_data_ptr (vecs s this), n) val s = Inr ((v_data_ptr (vecs s' this), n), s')"
    and "live this s' = take n (live this s) @ [Some val] @ drop n (live this s)"
    and "v_size (vecs s' this) = v_size (vecs s this) + 1"
    and "vec_ok s' (vecs s' this)"
proof (cases "v_size (vecs s this) \<noteq> v_capacity (vecs s this)")
  case True
  let ?v = "vecs s this"
  let ?m = "v_size ?v"
  from vec_ok_sizes[OF ok] True have lt: "?m < v_capacity ?v"
    and "?m + 1 \<le> 2 * max_slots + 1" by simp_all
  then have st: "size_t (Suc ?m) = Suc ?m" by (simp add: size_t_id)
  from ok lt obtain a b where a: "v_data_ptr ?v = Some a" and b: "bufs s a = Some b"
    and len: "length b = v_capacity ?v" and init: "None \<notin> set (take ?m b)"
    by (auto simp: vec_ok_def split: option.splits)
  have "set (take (?m - n) (drop n b)) \<subseteq> set (take ?m b)"
    using n by (metis drop_take set_drop_subset)
  with init have none: "None \<notin> set (take (?m - n) (drop n b))" by blast
  let ?b1 = "take (?m + 1 - (?m - n)) b @ take (?m - n) (drop n b) @ drop (?m + 1) b"
  have c: "std_copy_backward (Some a) n (?m - n) (Some a) (?m + 1) s = Inr (set_buf a ?b1 s)"
    using b _ _ none by (rule std_copy_backward_right) (use n lt len in simp_all)
  have nb: "n < length b" using n lt len by simp
  have b1: "?b1 = take n b @ [b ! n] @ take (?m - n) (drop n b) @ drop (?m + 1) b"
    using n nb by (simp add: Suc_diff_le take_Suc_conv_app_nth)
  let ?b2 = "take n b @ [Some val] @ take (?m - n) (drop n b) @ drop (?m + 1) b"
  have "(take n b @ b ! n # (take (?m - n) (drop n b) @ drop (?m + 1) b))[length (take n b) := Some val]
       = take n b @ Some val # (take (?m - n) (drop n b) @ drop (?m + 1) b)"
    by (rule list_update_length)
  then have b2: "?b1[n := Some val] = ?b2" using b1 nb by simp
  have l1: "length ?b1 = length b" using n lt len by simp
  have w: "store (Some a) n val (set_buf a ?b1 s) = Inr (set_buf a ?b2 s)"
    using store_Some[of "set_buf a ?b1 s" a ?b1 n val] nb l1 b2 by simp
  let ?s' = "set_vec this (?v\<lparr>v_size := ?m + 1\<rparr>) (set_buf a ?b2 s)"
  have r: "Insert_move this (v_data_ptr ?v, n) val s = Inr ((v_data_ptr (vecs ?s' this), n), ?s')"
    using True n a c w by (simp add: Insert_move_def Let_def st)
  have "length (take n b @ [Some val] @ take (?m - n) (drop n b)) = ?m + 1"
    using n lt len by simp
  then have "take (?m + 1) ((take n b @ [Some val] @ take (?m - n) (drop n b)) @ drop (?m + 1) b)
     = take n b @ [Some val] @ take (?m - n) (drop n b)"
    by (rule take_length_append)
  then have "take (?m + 1) ?b2 = take n (take ?m b) @ [Some val] @ drop n (take ?m b)"
    using n by (simp add: drop_take min_def)
  then have "live this ?s' = take n (live this s) @ [Some val] @ drop n (live this s)"
    using a b by (simp add: live_def contents_def)
  moreover have "vec_ok ?s' (vecs ?s' this)"
    using Insert_move_updates[OF ok r] by (simp add: updates_def)
  ultimately show ?thesis using that[OF r] by simp
next
  case False
  let ?v = "vecs s this"
  let ?m = "v_size ?v"
  let ?L = "contents ?v s"
  let ?d = "next_addr s"
  define nc where "nc = (if v_capacity ?v = 0 then 1 else v_capacity ?v * 2)"
  from vec_ok_sizes[OF ok] False have eq: "?m = v_capacity ?v"
    and cap: "v_capacity ?v \<le> max_slots" by simp_all
  then have st: "size_t (Suc (v_capacity ?v)) = Suc (v_capacity ?v)"
    and st2: "size_t (v_capacity ?v * 2) = v_capacity ?v * 2" by (simp_all add: size_t_id)
  have foldnc: "(if v_capacity ?v = 0 then 1 else size_t (v_capacity ?v * 2)) = nc"
    by (simp add: nc_def st2)
  have ncb: "0 < nc" "nc \<le> max_slots" using room False by (auto simp: max_slots_val nc_def)
  have sz: "?m < nc" using eq by (auto simp: nc_def)
  have len: "length ?L = ?m" using ok by (rule contents_length)
  from ncb obtain s1 where new: "ArrayPtr_new nc s = Inr (Some ?d, s1)"
    and bs1: "bufs s1 = (bufs s)(?d \<mapsto> replicate nc None)"
    and v1: "vecs s1 = vecs s" and n1: "next_addr s1 = Suc ?d"
    by (rule ArrayPtr_new_Some)
  from vec_ok_old[OF ok] have ne: "v_data_ptr ?v \<noteq> Some ?d" by auto
  then have ne': "v_data_ptr ?v = None \<or> v_data_ptr ?v \<noteq> Some ?d" by simp
  have ok1: "vec_ok s1 ?v"
    using ok ArrayPtr_new_ok(2)[OF new, of "Some ?d"] ne' by (rule vec_ok_frame)
  have c1: "contents ?v s1 = ?L"
    using ne bs1 by (auto simp: contents_def split: option.splits)
  have d1: "bufs s1 ?d = Some (replicate nc None)" using bs1 by simp
  \<comment> \<open>the elements before the position\<close>
  let ?b2 = "take n ?L @ replicate (nc - n) None"
  let ?s2 = "set_buf ?d ?b2 s1"
  have "std_copy (v_data_ptr ?v) 0 n (Some ?d) 0 s1 =
     Inr (set_buf ?d (take 0 (replicate nc None) @ take n (drop 0 (contents ?v s1))
        @ drop (0 + n) (replicate nc None)) s1)"
    using ok1 _ d1 ne by (rule std_copy_from_vec) (use n sz in simp_all)
  then have cp1: "std_copy (v_data_ptr ?v) 0 n (Some ?d) 0 s1 = Inr ?s2"
    using c1 by simp
  \<comment> \<open>the new element\<close>
  let ?b3 = "take n ?L @ [Some val] @ replicate (nc - n - 1) None"
  let ?s3 = "set_buf ?d ?b3 s1"
  have "(take n ?L @ None # replicate (nc - n - 1) None)[length (take n ?L) := Some val]
       = take n ?L @ Some val # replicate (nc - n - 1) None"
    by (rule list_update_length)
  moreover have "replicate (nc - n) None = (None :: 'a option) # replicate (nc - n - 1) None"
    using n sz by (cases "nc - n") auto
  ultimately have u: "?b2[n := Some val] = ?b3" using n len by simp
  have w: "store (Some ?d) n val ?s2 = Inr ?s3"
    using store_Some[of ?s2 ?d ?b2 n val] n sz len u by simp
  \<comment> \<open>the elements from the position on\<close>
  have ok3: "vec_ok ?s3 ?v" using ok1 ne by (rule vec_ok_set_buf)
  have c3: "contents ?v ?s3 = ?L" using ne c1 by (simp add: contents_set_buf)
  have d3: "bufs ?s3 ?d = Some ?b3" by simp
  let ?b4 = "take (n + 1) ?b3 @ take (?m - n) (drop n ?L) @ drop (n + 1 + (?m - n)) ?b3"
  let ?s4 = "set_buf ?d ?b4 s1"
  have "std_copy (v_data_ptr ?v) n (?m - n) (Some ?d) (n + 1) ?s3 =
     Inr (set_buf ?d (take (n + 1) ?b3 @ take (?m - n) (drop n (contents ?v ?s3))
        @ drop (n + 1 + (?m - n)) ?b3) ?s3)"
    using ok3 _ d3 ne by (rule std_copy_from_vec) (use n sz len in simp_all)
  then have cp2: "std_copy (v_data_ptr ?v) n (?m - n) (Some ?d) (n + 1) ?s3 = Inr ?s4"
    using c3 by simp
  let ?s' = "ArrayPtr_delete (v_data_ptr ?v)
       (set_vec this \<lparr>v_data_ptr = Some ?d, v_size = ?m + 1, v_capacity = nc\<rparr> ?s4)"
  have r: "Insert_move this (v_data_ptr ?v, n) val s = Inr ((v_data_ptr (vecs ?s' this), n), ?s')"
    using False n new cp1 w cp2 eq unfolding Insert_move_def Let_def foldnc
    by (simp add: st vec_upd_all)
  have t3: "take (n + 1) ?b3 = take n ?L @ [Some val]"
    using n len by simp
  have "length ((take n ?L @ [Some val]) @ drop n ?L) = ?m + 1" using n len by simp
  then have "take (?m + 1) (((take n ?L @ [Some val]) @ drop n ?L) @ drop (n + 1 + (?m - n)) ?b3)
      = (take n ?L @ [Some val]) @ drop n ?L"
    by (rule take_length_append)
  then have "take (?m + 1) ?b4 = take n ?L @ [Some val] @ drop n ?L"
    using t3 len by simp
  then have "live this ?s' = take n ?L @ [Some val] @ drop n ?L"
    using ne by (simp add: live_def contents_delete) (simp add: contents_def)
  moreover have "vec_ok ?s' (vecs ?s' this)"
    using Insert_move_updates[OF ok r] by (simp add: updates_def)
  ultimately show ?thesis using that[OF r] by (simp add: live_def)
qed

lemma deref_live:
  assumes ok: "vec_ok s (vecs s this)" and i: "i < v_size (vecs s this)"
    and x: "live this s ! i = Some x"
  shows "deref (v_data_ptr (vecs s this), i) s = Inr x"
proof -
  from i have "0 < v_size (vecs s this)" by simp
  with ok obtain a b where a: "v_data_ptr (vecs s this) = Some a" and b: "bufs s a = Some b"
    and len: "length b = v_capacity (vecs s this)"
    by (rule vec_ok_Some)
  from vec_ok_sizes[OF ok] len i have "i < length b" by simp
  moreover have "b ! i = Some x" using x a b i by (simp add: live_def contents_def)
  ultimately show ?thesis using a b by (simp add: deref_def load_def)
qed

subsection \<open>Comparison, copies and the objects an operation leaves alone\<close>

lemma std_equal_bufs:
  "bufs s a = Some ba \<Longrightarrow> bufs s d = Some bd \<Longrightarrow> i + c \<le> length ba \<Longrightarrow> k + c \<le> length bd \<Longrightarrow>
   None \<notin> set (take c (drop i ba)) \<Longrightarrow> None \<notin> set (take c (drop k bd)) \<Longrightarrow>
   std_equal (Some a) i c (Some d) k s = Inr (take c (drop i ba) = take c (drop k bd))"
proof (induction c arbitrary: i k)
  case 0
  then show ?case by simp
next
  case (Suc c)
  from Suc.prems have i: "i < length ba" and k: "k < length bd" by simp_all
  have ta: "take (Suc c) (drop i ba) = ba ! i # take c (drop (Suc i) ba)"
    using i by (simp add: Cons_nth_drop_Suc[symmetric])
  have td: "take (Suc c) (drop k bd) = bd ! k # take c (drop (Suc k) bd)"
    using k by (simp add: Cons_nth_drop_Suc[symmetric])
  from ta Suc.prems(5) have na: "None \<notin> set (ba ! i # take c (drop (Suc i) ba))" by simp
  from td Suc.prems(6) have nd: "None \<notin> set (bd ! k # take c (drop (Suc k) bd))" by simp
  from na obtain x where x: "ba ! i = Some x" by (cases "ba ! i") auto
  from nd obtain y where y: "bd ! k = Some y" by (cases "bd ! k") auto
  have lx: "load (Some a) i s = Inr x" using Suc.prems(1) i x by (rule load_Some)
  have ly: "load (Some d) k s = Inr y" using Suc.prems(2) k y by (rule load_Some)
  have ih: "std_equal (Some a) (Suc i) c (Some d) (Suc k) s =
      Inr (take c (drop (Suc i) ba) = take c (drop (Suc k) bd))"
    using Suc.prems(1,2) _ _ _ _
  proof (rule Suc.IH)
    show "Suc i + c \<le> length ba" using Suc.prems by simp
    show "Suc k + c \<le> length bd" using Suc.prems by simp
    show "None \<notin> set (take c (drop (Suc i) ba))" using na by simp
    show "None \<notin> set (take c (drop (Suc k) bd))" using nd by simp
  qed
  show ?case using lx ly ih ta td x y by simp
qed

text \<open>On well-formed vectors \<open>operator==\<close> decides the equality of the live slots.\<close>

lemma op_eq_live:
  assumes l: "vec_ok s (vecs s lhs)" and r: "vec_ok s (vecs s rhs)"
  shows "op_eq lhs rhs s = Inr (live lhs s = live rhs s)"
proof (cases "v_size (vecs s lhs) = v_size (vecs s rhs)")
  case False
  then have "live lhs s \<noteq> live rhs s"
    using contents_length[OF l] contents_length[OF r] by (auto simp: live_def)
  with False show ?thesis by (simp add: op_eq_def GetSize_def)
next
  case True
  show ?thesis
  proof (cases "v_size (vecs s lhs) = 0")
    case z: True
    then have "live lhs s = []" "live rhs s = []"
      using contents_length[OF l] contents_length[OF r] True by (simp_all add: live_def)
    with z True show ?thesis
      by (simp add: op_eq_def GetSize_def begin_it_def end_it_def)
  next
    case False
    let ?n = "v_size (vecs s lhs)"
    from False have pl: "0 < v_size (vecs s lhs)" and pr: "0 < v_size (vecs s rhs)"
      using True by simp_all
    from l pl obtain a ba where a: "v_data_ptr (vecs s lhs) = Some a" "bufs s a = Some ba"
      "length ba = v_capacity (vecs s lhs)" "None \<notin> set (take ?n ba)"
      by (rule vec_ok_Some)
    from r pr obtain d bd where d: "v_data_ptr (vecs s rhs) = Some d" "bufs s d = Some bd"
      "length bd = v_capacity (vecs s rhs)" "None \<notin> set (take (v_size (vecs s rhs)) bd)"
      by (rule vec_ok_Some)
    have "std_equal (Some a) 0 ?n (Some d) 0 s = Inr (take ?n (drop 0 ba) = take ?n (drop 0 bd))"
      using a(2) d(2)
    proof (rule std_equal_bufs)
      show "0 + ?n \<le> length ba" using vec_ok_sizes[OF l] a(3) by simp
      show "0 + ?n \<le> length bd" using vec_ok_sizes[OF r] d(3) True by simp
      show "None \<notin> set (take ?n (drop 0 ba))" using a(4) by simp
      show "None \<notin> set (take ?n (drop 0 bd))" using d(4) True by simp
    qed
    then show ?thesis
      using a d True
      by (simp add: op_eq_def GetSize_def begin_it_def end_it_def live_def contents_def)
  qed
qed

lemma copy_construct_result:
  assumes ok: "vec_ok s other"
  obtains new_ptr s1 where
    "copy_construct other s = Inr (\<lparr>v_data_ptr = new_ptr, v_size = v_size other,
        v_capacity = v_size other\<rparr>, s1)"
    and "contents \<lparr>v_data_ptr = new_ptr, v_size = v_size other, v_capacity = v_size other\<rparr> s1
           = contents other s"
    and "new_ptr = None \<or> new_ptr = Some (next_addr s)"
proof (cases "v_size other = 0")
  case True
  then have "copy_construct other s = Inr (\<lparr>v_data_ptr = None, v_size = v_size other,
        v_capacity = v_size other\<rparr>, s)"
    by (simp add: copy_construct_def Let_def empty_vec_def)
  moreover have "contents other s = []" using contents_length[OF ok] True by simp
  ultimately show ?thesis using that[of None s] by (simp add: contents_def)
next
  case False
  let ?d = "next_addr s"
  from False vec_ok_sizes[OF ok] have n: "0 < v_size other" "v_size other \<le> max_slots" by simp_all
  from copy_to_new[OF ok n order_refl] obtain s1 s2 where
    new: "ArrayPtr_new (v_size other) s = Inr (Some ?d, s1)"
    and c: "std_copy (v_data_ptr other) 0 (v_size other) (Some ?d) 0 s1 = Inr s2"
    and b2: "bufs s2 = (bufs s)(?d \<mapsto> contents other s @ replicate (v_size other - v_size other) None)"
    by blast
  have r: "copy_construct other s = Inr (\<lparr>v_data_ptr = Some ?d, v_size = v_size other,
        v_capacity = v_size other\<rparr>, s2)"
    using False new c by (simp add: copy_construct_def Let_def empty_vec_def)
  have "contents \<lparr>v_data_ptr = Some ?d, v_size = v_size other, v_capacity = v_size other\<rparr> s2
           = contents other s"
    using b2 contents_length[OF ok] by (simp add: contents_def)
  then show ?thesis using that[OF r] by simp
qed

text \<open>An operation leaves the objects it is not applied to as they are.\<close>

lemma updates_other:
  assumes ok: "state_ok s" and u: "updates this s s'" and j: "j \<noteq> this"
  shows "vecs s' j = vecs s j \<and> live j s' = live j s"
proof -
  from u j have v: "vecs s' j = vecs s j"
    and fr: "frame (v_data_ptr (vecs s this)) s s'" by (simp_all add: updates_def)
  have "contents (vecs s j) s' = contents (vecs s j) s"
  proof (cases "v_data_ptr (vecs s j)")
    case None
    then show ?thesis by (simp add: contents_def)
  next
    case (Some a)
    with state_ok_vec[OF ok, of j] have "a < next_addr s" by (simp add: vec_ok_def)
    moreover have "Some a \<noteq> v_data_ptr (vecs s this)"
    proof
      assume "Some a = v_data_ptr (vecs s this)"
      then have "v_data_ptr (vecs s this) = Some a" by simp
      with ok Some have "j = this" unfolding state_ok_def by blast
      with j show False by simp
    qed
    ultimately have "bufs s' a = bufs s a" using fr by (simp add: frame_def)
    with Some show ?thesis by (simp add: contents_def)
  qed
  with v show ?thesis by (simp add: live_def)
qed

lemma step_other:
  assumes ok: "state_ok s" and r: "step dflt moved x s = Inr s'" and j: "j \<notin> set (objects x)"
  shows "vecs s' j = vecs s j \<and> live j s' = live j s"
  using step_effect[OF ok r]
proof (elim disjE exE conjE)
  fix this assume "objects x = [this]" and "updates this s s'"
  with j updates_other[OF ok, of this s' j] show ?thesis by simp
next
  fix a b assume "objects x = [a, b]" and "bufs s' = bufs s"
    and "\<forall>j. j \<noteq> a \<and> j \<noteq> b \<longrightarrow> vecs s' j = vecs s j"
  with j show ?thesis by (simp add: live_def contents_def split: option.splits)
qed

lemma run_other:
  assumes "state_ok s" and "run dflt moved xs s = Inr s'"
    and "\<forall>x\<in>set xs. j \<notin> set (objects x)"
  shows "vecs s' j = vecs s j \<and> live j s' = live j s \<and> state_ok s'"
  using assms
proof (induction xs arbitrary: s)
  case Nil
  then show ?case by simp
next
  case (Cons x xs)
  then obtain s1 where s1: "step dflt moved x s = Inr s1" and r: "run dflt moved xs s1 = Inr s'"
    by (auto simp: bind_err_eq_Inr)
  from step_state_ok[OF Cons.prems(1) s1] have ok1: "state_ok s1" .
  from step_other[OF Cons.prems(1) s1, of j] Cons.prems(3)
  have "vecs s1 j = vecs s j \<and> live j s1 = live j s" by simp
  moreover from Cons.IH[OF ok1 r] Cons.prems(3)
  have "vecs s' j = vecs s1 j \<and> live j s' = live j s1 \<and> state_ok s'" by simp
  ultimately show ?case by simp
qed

subsection \<open>No undefined behaviour in a well-formed state\<close>

lemma std_generate_defined:
  "bufs s d = Some bd \<Longrightarrow> k + c \<le> length bd \<Longrightarrow>
   \<exists>s'. std_generate (Some d) k c gen g s = Inr s'"
proof (induction c arbitrary: k g s bd)
  case 0
  then show ?case by simp
next
  case (Suc c)
  obtain x g' where g: "gen g = (x, g')" by (cases "gen g")
  let ?s = "set_buf d (bd[k := Some x]) s"
  have st: "store (Some d) k x s = Inr ?s" using Suc.prems by (intro store_Some) auto
  have "\<exists>s'. std_generate (Some d) (Suc k) c gen g' ?s = Inr s'"
    using Suc.prems by (intro Suc.IH[of ?s "bd[k := Some x]"]) auto
  then show ?case using g st by simp
qed

lemma std_fill_defined:
  "bufs s d = Some bd \<Longrightarrow> k + c \<le> length bd \<Longrightarrow> \<exists>s'. std_fill (Some d) k c x s = Inr s'"
proof (induction c arbitrary: k s bd)
  case 0
  then show ?case by simp
next
  case (Suc c)
  let ?s = "set_buf d (bd[k := Some x]) s"
  have st: "store (Some d) k x s = Inr ?s" using Suc.prems by (intro store_Some) auto
  have "\<exists>s'. std_fill (Some d) (Suc k) c x ?s = Inr s'"
    using Suc.prems by (intro Suc.IH[of ?s "bd[k := Some x]"]) auto
  then show ?case using st by simp
qed

lemma std_copy_init_defined:
  "bufs s d = Some bd \<Longrightarrow> k + length xs \<le> length bd \<Longrightarrow>
   \<exists>s'. std_copy_init xs (Some d) k s = Inr s'"
proof (induction xs arbitrary: k s bd)
  case Nil
  then show ?case by simp
next
  case (Cons x xs)
  let ?s = "set_buf d (bd[k := Some x]) s"
  have st: "store (Some d) k x s = Inr ?s" using Cons.prems by (intro store_Some) auto
  have "\<exists>s'. std_copy_init xs (Some d) (Suc k) ?s = Inr s'"
    using Cons.prems by (intro Cons.IH[of ?s "bd[k := Some x]"]) auto
  then show ?case using st by simp
qed

text \<open>A constructor that fills a new array returns or runs out of memory.\<close>

lemma ArrayPtr_new_cases:
  obtains (oom) "ArrayPtr_new n s = Inl OutOfMemory"
  | (null) "n = 0" "ArrayPtr_new n s = Inr (None, s)"
  | (new) s1 where "0 < n" "ArrayPtr_new n s = Inr (Some (next_addr s), s1)"
      "bufs s1 (next_addr s) = Some (replicate n None)"
proof (cases "n = 0")
  case True
  then show ?thesis using null by (simp add: ArrayPtr_new_def)
next
  case False
  show ?thesis
  proof (cases "max_slots < n")
    case True
    with False show ?thesis using oom by (simp add: ArrayPtr_new_def)
  next
    case F: False
    with False have "0 < n" "n \<le> max_slots" by simp_all
    then obtain s1 where "ArrayPtr_new n s = Inr (Some (next_addr s), s1)"
      "bufs s1 = (bufs s)(next_addr s \<mapsto> replicate n None)"
      by (rule ArrayPtr_new_Some)
    with \<open>0 < n\<close> show ?thesis using new[of s1] by simp
  qed
qed

lemma SimpleVector_size_defined:
  "SimpleVector_size dflt this n s \<noteq> Inl UndefinedBehaviour"
proof (cases n s rule: ArrayPtr_new_cases)
  case oom
  then show ?thesis by (simp add: SimpleVector_size_def)
next
  case null
  then show ?thesis by (simp add: SimpleVector_size_def)
next
  case (new s1)
  let ?s = "set_vec this \<lparr>v_data_ptr = Some (next_addr s), v_size = n, v_capacity = n\<rparr> s1"
  have "\<exists>s'. std_generate (Some (next_addr s)) 0 n (\<lambda>u :: unit. (dflt, u)) () ?s = Inr s'"
    using new(3) by (intro std_generate_defined[of _ _ "replicate n None"]) auto
  with new show ?thesis by (auto simp: SimpleVector_size_def)
qed

lemma SimpleVector_fill_defined:
  "SimpleVector_fill this n x s \<noteq> Inl UndefinedBehaviour"
proof (cases n s rule: ArrayPtr_new_cases)
  case oom
  then show ?thesis by (simp add: SimpleVector_fill_def)
next
  case null
  then show ?thesis by (simp add: SimpleVector_fill_def)
next
  case (new s1)
  let ?s = "set_vec this \<lparr>v_data_ptr = Some (next_addr s), v_size = n, v_capacity = n\<rparr> s1"
  have "\<exists>s'. std_fill (Some (next_addr s)) 0 n x ?s = Inr s'"
    using new(3) by (intro std_fill_defined[of _ _ "replicate n None"]) auto
  with new show ?thesis by (auto simp: SimpleVector_fill_def)
qed

lemma SimpleVector_fill_move_defined:
  "SimpleVector_fill_move moved this n x s \<noteq> Inl UndefinedBehaviour"
proof (cases n s rule: ArrayPtr_new_cases)
  case oom
  then show ?thesis by (simp add: SimpleVector_fill_move_def)
next
  case null
  then show ?thesis by (simp add: SimpleVector_fill_move_def)
next
  case (new s1)
  let ?s = "set_vec this \<lparr>v_data_ptr = Some (next_addr s), v_size = n, v_capacity = n\<rparr> s1"
  have "\<exists>s'. std_generate (Some (next_addr s)) 0 n (\<lambda>v. (v, moved v)) x ?s = Inr s'"
    using new(3) by (intro std_generate_defined[of _ _ "replicate n None"]) auto
  with new show ?thesis by (auto simp: SimpleVector_fill_move_def)
qed

lemma SimpleVector_init_defined:
  "SimpleVector_init this xs s \<noteq> Inl UndefinedBehaviour"
proof (cases "length xs" s rule: ArrayPtr_new_cases)
  case oom
  then show ?thesis by (simp add: SimpleVector_init_def)
next
  case null
  then show ?thesis by (simp add: SimpleVector_init_def)
next
  case (new s1)
  let ?s = "set_vec this \<lparr>v_data_ptr = Some (next_addr s), v_size = length xs,
     v_capacity = length xs\<rparr> s1"
  have "\<exists>s'. std_copy_init xs (Some (next_addr s)) 0 ?s = Inr s'"
    using new(3) by (intro std_copy_init_defined[of _ _ "replicate (length xs) None"]) auto
  with new show ?thesis by (auto simp: SimpleVector_init_def)
qed

lemma SimpleVector_reserved_defined:
  "SimpleVector_reserved this r s \<noteq> Inl UndefinedBehaviour"
  by (cases "proxy_GetCapacity r" s rule: ArrayPtr_new_cases)
     (auto simp: SimpleVector_reserved_def)

lemma copy_defined:
  assumes "vec_ok s (vecs s other)"
  shows "SimpleVector_copy this other s \<noteq> Inl UndefinedBehaviour"
    and "assign_copy this other s \<noteq> Inl UndefinedBehaviour"
proof -
  from copy_construct_result[OF assms] obtain new_ptr s1 where
    "copy_construct (vecs s other) s = Inr (\<lparr>v_data_ptr = new_ptr, v_size = v_size (vecs s other),
        v_capacity = v_size (vecs s other)\<rparr>, s1)" by blast
  then show "SimpleVector_copy this other s \<noteq> Inl UndefinedBehaviour"
    and "assign_copy this other s \<noteq> Inl UndefinedBehaviour"
    by (simp_all add: SimpleVector_copy_def assign_copy_def)
qed

lemma PopBack_defined: "PopBack this s \<noteq> Inl UndefinedBehaviour"
  by (simp add: PopBack_def Let_def)

lemma PushBack_defined:
  assumes ok: "vec_ok s (vecs s this)"
  shows "PushBack this val s \<noteq> Inl UndefinedBehaviour"
proof (cases "v_size (vecs s this) \<noteq> v_capacity (vecs s this) \<or>
               v_capacity (vecs s this) * 2 \<le> max_slots")
  case True
  from PushBack_result[OF ok True, of val] obtain s' where "PushBack this val s = Inr s'" by blast
  then show ?thesis by simp
next
  case False
  then have full: "v_size (vecs s this) = v_capacity (vecs s this)"
    and big: "max_slots < v_capacity (vecs s this) * 2" by simp_all
  from vec_ok_sizes[OF ok] have "size_t (v_capacity (vecs s this) * 2) = v_capacity (vecs s this) * 2"
    by (simp add: size_t_id)
  with full big show ?thesis
    by (auto simp: PushBack_def Let_def ArrayPtr_new_def max_slots_val)
qed

lemma Erase_defined:
  assumes ok: "vec_ok s (vecs s this)" and pos: "fst pos = v_data_ptr (vecs s this)"
  shows "Erase this pos s \<noteq> Inl UndefinedBehaviour"
proof (cases "snd pos < v_size (vecs s this)")
  case True
  from Erase_result[OF ok True] obtain s' where
    "Erase this (v_data_ptr (vecs s this), snd pos) s = Inr ((v_data_ptr (vecs s this), snd pos), s')"
    by blast
  moreover have "pos = (v_data_ptr (vecs s this), snd pos)" using pos by (cases pos) simp
  ultimately show ?thesis by simp
next
  case False
  with pos show ?thesis by (simp add: Erase_def Let_def)
qed

lemma Insert_move_defined:
  assumes ok: "vec_ok s (vecs s this)" and pos: "fst pos = v_data_ptr (vecs s this)"
  shows "Insert_move this pos val s \<noteq> Inl UndefinedBehaviour"
proof (cases "snd pos \<le> v_size (vecs s this)")
  case False
  with pos show ?thesis by (simp add: Insert_move_def Let_def)
next
  case n: True
  show ?thesis
  proof (cases "v_size (vecs s this) \<noteq> v_capacity (vecs s this) \<or>
               v_capacity (vecs s this) * 2 \<le> max_slots")
    case True
    from Insert_move_result[OF ok n True, of val] obtain s' where
      "Insert_move this (v_data_ptr (vecs s this), snd pos) val s =
         Inr ((v_data_ptr (vecs s' this), snd pos), s')"
      by blast
    moreover have "pos = (v_data_ptr (vecs s this), snd pos)" using pos by (cases pos) simp
    ultimately show ?thesis by simp
  next
    case False
    then have full: "v_size (vecs s this) = v_capacity (vecs s this)"
      and big: "max_slots < v_capacity (vecs s this) * 2" by simp_all
    from vec_ok_sizes[OF ok] have "size_t (v_capacity (vecs s this) * 2) = v_capacity (vecs s this) * 2"
      by (simp add: size_t_id)
    with full big n pos show ?thesis
      by (auto simp: Insert_move_def Let_def ArrayPtr_new_def max_slots_val)
  qed
qed

lemma Reserve_result:
  assumes ok: "vec_ok s (vecs s this)"
    and lt: "v_capacity (vecs s this) < n" and n: "n \<le> max_slots"
  obtains s' where "Reserve this n s = Inr s'"
    and "v_capacity (vecs s' this) = n"
    and "v_size (vecs s' this) = v_size (vecs s this)"
    and "live this s' = live this s"
    and "vec_ok s' (vecs s' this)"
proof -
  let ?v = "vecs s this"
  let ?d = "next_addr s"
  let ?L = "contents ?v s"
  from lt have pos: "0 < n" by simp
  from vec_ok_sizes[OF ok] lt have sz: "v_size ?v \<le> n" by simp
  from copy_to_new[OF ok pos n sz] obtain s1 s2 where
    new: "ArrayPtr_new n s = Inr (Some ?d, s1)"
    and c: "std_copy (v_data_ptr ?v) 0 (v_size ?v) (Some ?d) 0 s1 = Inr s2"
    and b2: "bufs s2 = (bufs s)(?d \<mapsto> ?L @ replicate (n - v_size ?v) None)"
    and v2: "vecs s2 = vecs s" and n2: "next_addr s2 = Suc ?d"
    and ne: "v_data_ptr ?v \<noteq> Some ?d"
    by blast
  let ?s' = "ArrayPtr_delete (v_data_ptr ?v)
       (set_vec this \<lparr>v_data_ptr = Some ?d, v_size = v_size ?v, v_capacity = n\<rparr> s2)"
  have r: "Reserve this n s = Inr ?s'"
    using lt new c by (simp add: Reserve_def Let_def vec_upd_ptr_cap)
  have len: "length ?L = v_size ?v" using ok by (rule contents_length)
  have "live this ?s' = ?L"
    using ne b2 len by (simp add: live_def contents_delete) (simp add: contents_def)
  moreover have "vec_ok ?s' (vecs ?s' this)"
    using Reserve_updates[OF ok r] by (simp add: updates_def)
  ultimately show ?thesis using that[OF r] by (simp add: live_def)
qed

lemma Reserve_defined:
  assumes ok: "vec_ok s (vecs s this)"
  shows "Reserve this n s \<noteq> Inl UndefinedBehaviour"
proof (cases "v_capacity (vecs s this) < n")
  case False
  then show ?thesis by (simp add: Reserve_def)
next
  case True
  show ?thesis
  proof (cases "n \<le> max_slots")
    case le: True
    from Reserve_result[OF ok True le] obtain s' where "Reserve this n s = Inr s'" by blast
    then show ?thesis by simp
  next
    case False
    with True show ?thesis by (simp add: Reserve_def ArrayPtr_new_def)
  qed
qed

lemma Resize_defined:
  assumes ok: "vec_ok s (vecs s this)"
  shows "Resize dflt this n s \<noteq> Inl UndefinedBehaviour"
proof -
  let ?v = "vecs s this"
  consider (shrink) "n \<le> v_size ?v" | (fill) "v_size ?v < n" "n \<le> v_capacity ?v"
    | (grow) "v_size ?v < n" "v_capacity ?v < n" by linarith
  then show ?thesis
  proof cases
    case shrink
    then show ?thesis by (simp add: Resize_def Let_def)
  next
    case fill
    then have "0 < v_capacity ?v" by simp
    with ok obtain a b where a: "v_data_ptr ?v = Some a" and b: "bufs s a = Some b"
      and len: "length b = v_capacity ?v"
      by (auto simp: vec_ok_def split: option.splits)
    have "\<exists>s'. std_generate (Some a) (v_size ?v) (n - v_size ?v) (\<lambda>u :: unit. (dflt, u)) () s = Inr s'"
      using b by (rule std_generate_defined) (use fill len in simp)
    with fill a show ?thesis by (auto simp: Resize_def Let_def)
  next
    case grow
    define nc where "nc = (if n \<le> v_capacity ?v * 2 then v_capacity ?v * 2 else n)"
    from vec_ok_sizes[OF ok] have st2: "size_t (v_capacity ?v * 2) = v_capacity ?v * 2"
      by (simp add: size_t_id)
    have foldnc: "(if n \<le> size_t (v_capacity ?v * 2) then size_t (v_capacity ?v * 2) else n) = nc"
      by (simp add: nc_def st2)
    have nn: "n \<le> nc" and pos: "0 < nc" using grow by (auto simp: nc_def)
    show ?thesis
    proof (cases "nc \<le> max_slots")
      case False
      with pos have "ArrayPtr_new nc s = Inl OutOfMemory" by (simp add: ArrayPtr_new_def)
      with grow show ?thesis unfolding Resize_def Let_def foldnc by simp
    next
      case True
      have sz: "v_size ?v \<le> nc" using grow nn by simp
      from copy_to_new[OF ok pos True sz] obtain s1 s2 where
        new: "ArrayPtr_new nc s = Inr (Some (next_addr s), s1)"
        and c: "std_copy (v_data_ptr ?v) 0 (v_size ?v) (Some (next_addr s)) 0 s1 = Inr s2"
        and b2: "bufs s2 = (bufs s)(next_addr s \<mapsto> contents ?v s @ replicate (nc - v_size ?v) None)"
        by blast
      have len: "length (contents ?v s) = v_size ?v" using ok by (rule contents_length)
      have "\<exists>s'. std_generate (Some (next_addr s)) (v_size ?v) (n - v_size ?v)
           (\<lambda>u :: unit. (dflt, u)) () s2 = Inr s'"
        by (rule std_generate_defined[of _ _ "contents ?v s @ replicate (nc - v_size ?v) None"])
           (use b2 len sz nn grow in simp_all)
      with grow new c show ?thesis unfolding Resize_def Let_def foldnc by auto
    qed
  qed
qed

text \<open>
  In a well-formed state no operation runs into undefined behaviour, as long as the
  positions it is given point into the array of the vector it is applied to.
\<close>

lemma step_defined:
  assumes ok: "state_ok s" and pos: "position_in x s"
  shows "step dflt moved x s \<noteq> Inl UndefinedBehaviour"
proof (cases x)
  case (Construct_size this n)
  then show ?thesis by (simp add: SimpleVector_size_defined)
next
  case (Construct_fill this n v)
  then show ?thesis by (simp add: SimpleVector_fill_defined)
next
  case (Construct_fill_move this n v)
  then show ?thesis by (simp add: SimpleVector_fill_move_defined)
next
  case (Construct_init this xs)
  then show ?thesis by (simp add: SimpleVector_init_defined)
next
  case (Construct_copy this other)
  then show ?thesis using copy_defined(1)[OF state_ok_vec[OF ok]] by simp
next
  case (Construct_reserved this r)
  then show ?thesis by (simp add: SimpleVector_reserved_defined)
next
  case (Assign_copy this rhs)
  then show ?thesis using copy_defined(2)[OF state_ok_vec[OF ok]] by simp
next
  case (Call_PopBack this)
  then show ?thesis by (simp add: PopBack_defined)
next
  case (Call_PushBack this v)
  then show ?thesis using PushBack_defined[OF state_ok_vec[OF ok]] by simp
next
  case (Call_PushBack_move this v)
  then show ?thesis using PushBack_defined[OF state_ok_vec[OF ok]] by (simp add: PushBack_move_eq)
next
  case (Call_Erase this p)
  with pos have "fst p = v_data_ptr (vecs s this)" by (simp add: position_in_def)
  from Erase_defined[OF state_ok_vec[OF ok] this] Call_Erase show ?thesis
    by (cases "Erase this p s") auto
next
  case (Call_Insert_move this p v)
  with pos have "fst p = v_data_ptr (vecs s this)" by (simp add: position_in_def)
  from Insert_move_defined[OF state_ok_vec[OF ok] this, of v] Call_Insert_move show ?thesis
    by (cases "Insert_move this p v s") auto
next
  case (Call_Reserve this n)
  then show ?thesis using Reserve_defined[OF state_ok_vec[OF ok]] by simp
next
  case (Call_Resize this n)
  then show ?thesis using Resize_defined[OF state_ok_vec[OF ok]] by simp
qed simp_all

lemma reachable_step_defined:
  "reachable dflt moved s \<Longrightarrow> position_in x s \<Longrightarrow> step dflt moved x s \<noteq> Inl UndefinedBehaviour"
  using reachable_state_ok by (rule step_defined)

subsection \<open>PopBack\<close>

text \<open>
  Claim C10. On a vector that is not empty, \<open>PopBack\<close> returns; the size is one less,
  the capacity is the same, and the live slots are the first \<open>size - 1\<close> of the live
  slots before. No array is touched.
\<close>

theorem PopBack_spec:
  "v_size (vecs s this) \<noteq> 0 \<Longrightarrow>
   \<exists>s'. PopBack this s = Inr s' \<and>
        GetSize this s' = GetSize this s - 1 \<and>
        GetCapacity this s' = GetCapacity this s \<and>
        live this s' = take (GetSize this s - 1) (live this s) \<and>
        bufs s' = bufs s \<and> v_data_ptr (vecs s' this) = v_data_ptr (vecs s this)"
  by (simp add: PopBack_def Let_def GetSize_def GetCapacity_def live_def contents_def min_def
      split: option.splits)

theorem PopBack_spec_witness:
  "\<exists>s'. PopBack 0 ex_one = Inr s' \<and> GetSize 0 s' = 2 \<and> GetCapacity 0 s' = 3 \<and>
        live 0 s' = [Some 1, Some 2]"
  using PopBack_spec [of ex_one 0]
  by (clarsimp simp: ex_one_def GetSize_def GetCapacity_def live_def contents_def)

subsection \<open>Resize to a smaller size\<close>

text \<open>
  Claim C5. \<open>Resize n\<close> with \<open>n\<close> at most the size returns; the size is \<open>n\<close>, the
  capacity is unchanged and the live slots are the first \<open>n\<close> of the live slots
  before. No array is touched.
\<close>

theorem Resize_shrink:
  "n \<le> v_size (vecs s this) \<Longrightarrow>
   \<exists>s'. Resize dflt this n s = Inr s' \<and>
        GetSize this s' = n \<and>
        GetCapacity this s' = GetCapacity this s \<and>
        live this s' = take n (live this s) \<and>
        bufs s' = bufs s \<and> v_data_ptr (vecs s' this) = v_data_ptr (vecs s this)"
  by (simp add: Resize_def Let_def GetSize_def GetCapacity_def live_def contents_def min_def
      split: option.splits)

theorem Resize_shrink_witness:
  "\<exists>s'. Resize 0 0 1 ex_one = Inr s' \<and> GetSize 0 s' = 1 \<and> GetCapacity 0 s' = 3 \<and>
        live 0 s' = [Some 1]"
  using Resize_shrink [of 1 ex_one 0 0]
  by (clarsimp simp: ex_one_def GetSize_def GetCapacity_def live_def contents_def)

subsection \<open>Erase at the last element\<close>

text \<open>
  Claim C9. On a vector that is not empty, \<open>Erase\<close> at \<open>end() - 1\<close> returns the new
  \<open>end()\<close>, and the live slots are the first \<open>size - 1\<close> of the live slots before.
\<close>

theorem Erase_last:
  "v_size (vecs s this) \<noteq> 0 \<Longrightarrow>
   \<exists>p s'. Erase this (fst (end_it this s), snd (end_it this s) - 1) s = Inr (p, s') \<and>
        p = end_it this s' \<and>
        GetSize this s' = GetSize this s - 1 \<and>
        live this s' = take (GetSize this s - 1) (live this s)"
  by (simp add: Erase_def Let_def end_it_def GetSize_def live_def contents_def min_def split: option.splits)

theorem Erase_last_witness:
  "\<exists>p s'. Erase 0 (Some 0, 2) ex_one = Inr (p, s') \<and> p = end_it 0 s' \<and> p = (Some 0, 2) \<and>
        GetSize 0 s' = 2 \<and> live 0 s' = [Some 1, Some 2]"
  using Erase_last [of ex_one 0]
  by (clarsimp simp: ex_one_def GetSize_def end_it_def live_def contents_def Erase_def)

subsection \<open>Checked access\<close>

text \<open>
  Claim C6. \<open>At i\<close> raises IndexOutOfRange exactly when \<open>i\<close> is at least the size, so
  it does at \<open>size\<close> and at \<open>size + 1\<close>. On a well-formed vector that is not empty,
  \<open>At (size - 1)\<close> returns the reference to slot \<open>size - 1\<close> of the vector's array, and
  reading through it gives the last live element. \<open>At\<close> takes the state and returns
  no new one: it changes nothing, whether it throws or not.
\<close>

theorem At_spec:
  "(At this i s = Inl IndexOutOfRange \<longleftrightarrow> GetSize this s \<le> i) \<and>
   At this (GetSize this s) s = Inl IndexOutOfRange \<and>
   At this (GetSize this s + 1) s = Inl IndexOutOfRange \<and>
   (vec_ok s (vecs s this) \<and> 0 < GetSize this s \<longrightarrow>
      (\<exists>x. At this (GetSize this s - 1) s = Inr (v_data_ptr (vecs s this), GetSize this s - 1) \<and>
           bind_err (At this (GetSize this s - 1) s) (\<lambda>p. deref p s) = Inr x \<and>
           last (live this s) = Some x))"
proof -
  have "\<exists>x. bind_err (At this (GetSize this s - 1) s) (\<lambda>p. deref p s) = Inr x \<and>
           last (live this s) = Some x"
    if ok: "vec_ok s (vecs s this)" and pos: "0 < GetSize this s"
  proof -
    let ?v = "vecs s this"
    from ok pos obtain a b where a: "v_data_ptr ?v = Some a" and b: "bufs s a = Some b"
      and len: "length b = v_capacity ?v" and le: "v_size ?v \<le> v_capacity ?v"
      and init: "None \<notin> set (take (v_size ?v) b)"
      by (auto simp: vec_ok_def GetSize_def split: option.splits)
    from pos have sz: "0 < v_size ?v" by (simp add: GetSize_def)
    have lv: "live this s = take (v_size ?v) b" using a b by (simp add: live_def contents_def)
    have ne: "take (v_size ?v) b \<noteq> []" using sz le len by auto
    have lst: "last (take (v_size ?v) b) = b ! (v_size ?v - 1)"
      using sz le len ne by (simp add: last_conv_nth min_def)
    have "b ! (v_size ?v - 1) \<in> set (take (v_size ?v) b)"
      using ne lst last_in_set by metis
    with init obtain x where x: "b ! (v_size ?v - 1) = Some x"
      by (cases "b ! (v_size ?v - 1)") auto
    show ?thesis
      using a b sz le len x lv lst
      by (simp add: At_def deref_def load_def GetSize_def)
  qed
  then show ?thesis by (auto simp: At_def GetSize_def)
qed

theorem At_spec_witness:
  "At 0 3 ex_one = Inl IndexOutOfRange \<and> At 0 4 ex_one = Inl IndexOutOfRange \<and>
   vec_ok ex_one (vecs ex_one 0) \<and> 0 < GetSize 0 ex_one \<and>
   At 0 2 ex_one = Inr (Some 0, 2) \<and>
   bind_err (At 0 2 ex_one) (\<lambda>p. deref p ex_one) = Inr 3 \<and> last (live 0 ex_one) = Some 3"
  using At_spec [of 0 3 ex_one]
  by (simp add: ex_one_def GetSize_def vec_ok_def max_slots_def At_def deref_def load_def live_def contents_def)

subsection \<open>Move assignment and move construction\<close>

text \<open>
  Claim C1, as stated, fails for move assignment: \<open>operator=(SimpleVector&&)\<close> is
  \<open>swap\<close>, so the source is left with what the target held. With \<^verbatim>\<open>D = {1}\<close> at
  location 0 and \<^verbatim>\<open>C = {2, 3}\<close> at location 1, after \<^verbatim>\<open>D = std::move(C)\<close> the vector
  \<open>C\<close> has size 1, capacity 1 and the array \<open>D\<close> had.
\<close>

theorem assign_move_counterexample:
  "GetSize 1 (assign_move 0 1 ex_two) = 1 \<and>
   GetCapacity 1 (assign_move 0 1 ex_two) = 1 \<and>
   v_data_ptr (vecs (assign_move 0 1 ex_two) 1) = Some 0 \<and>
   \<not> (GetSize 1 (assign_move 0 1 ex_two) = 0 \<and> GetCapacity 1 (assign_move 0 1 ex_two) = 0 \<and>
      v_data_ptr (vecs (assign_move 0 1 ex_two) 1) = None)"
  by (simp add: assign_move_def swap_def ex_two_def GetSize_def GetCapacity_def)

text \<open>
  Claim C1, amended. Move assignment between two different objects exchanges them:
  the target holds exactly the source's prior members (array, size, capacity) and live
  slots, and the source holds the target's prior ones; so the source is emptied
  exactly when the target was empty. Self-assignment changes nothing. Move
  construction leaves the new object with the source's prior members and live slots
  and the source with size 0, capacity 0 and no array. Neither allocates, releases or
  writes an array.
\<close>

theorem move_spec:
  "(this \<noteq> rhs \<longrightarrow>
      vecs (assign_move this rhs s) this = vecs s rhs \<and>
      vecs (assign_move this rhs s) rhs = vecs s this \<and>
      live this (assign_move this rhs s) = live rhs s \<and>
      live rhs (assign_move this rhs s) = live this s) \<and>
   assign_move this this s = s \<and>
   bufs (assign_move this rhs s) = bufs s \<and>
   next_addr (assign_move this rhs s) = next_addr s \<and>
   (this \<noteq> rhs \<longrightarrow>
      vecs (SimpleVector_move this rhs s) this = vecs s rhs \<and>
      vecs (SimpleVector_move this rhs s) rhs = empty_vec \<and>
      live this (SimpleVector_move this rhs s) = live rhs s \<and>
      live rhs (SimpleVector_move this rhs s) = []) \<and>
   bufs (SimpleVector_move this rhs s) = bufs s \<and>
   next_addr (SimpleVector_move this rhs s) = next_addr s"
  by (simp add: assign_move_def SimpleVector_move_def swap_vecs live_def contents_def empty_vec_def
      split: option.splits)

theorem move_spec_witness:
  "(0::nat) \<noteq> 1 \<and>
   GetSize 0 (assign_move 0 1 ex_two) = 2 \<and> GetCapacity 0 (assign_move 0 1 ex_two) = 2 \<and>
   live 0 (assign_move 0 1 ex_two) = [Some 2, Some 3] \<and>
   live 1 (assign_move 0 1 ex_two) = [Some 1] \<and>
   live 0 (SimpleVector_move 0 1 ex_two) = [Some 2, Some 3] \<and>
   vecs (SimpleVector_move 0 1 ex_two) 1 = empty_vec"
  using move_spec [of 0 1 ex_two]
  by (simp add: ex_two_def live_def contents_def GetSize_def GetCapacity_def)

subsection \<open>The size never exceeds the capacity\<close>

text \<open>
  Claim C2. In every state that a sequence of public operations (constructors,
  destructor, assignments, \<open>swap\<close>, \<open>PushBack\<close>, \<open>PopBack\<close>, \<open>Insert\<close>, \<open>Erase\<close>,
  \<open>Reserve\<close>, \<open>Resize\<close>, \<open>Clear\<close>, on any objects and with any arguments) returns
  from the initial state, every vector has \<open>0 \<le> size \<le> capacity\<close>. The arithmetic
  of the source is modular; it does not wrap in a reachable state, because no array
  of more than \<open>max_slots\<close> elements is ever allocated. An operation that fails with
  an exception or an assertion leaves the state it was applied to, which is
  reachable; none runs into undefined behaviour there (\<open>reachable_step_defined\<close>).
\<close>

theorem size_le_capacity:
  "reachable dflt moved s \<Longrightarrow> 0 \<le> GetSize this s \<and> GetSize this s \<le> GetCapacity this s"
  using state_ok_vec[OF reachable_state_ok, of dflt moved s this]
  by (simp add: GetSize_def GetCapacity_def vec_ok_def)

theorem size_le_capacity_witness:
  "reachable 0 id ex_two \<and> GetSize 1 ex_two = 2 \<and> GetCapacity 1 ex_two = 2 \<and>
   0 \<le> GetSize 1 ex_two \<and> GetSize 1 ex_two \<le> GetCapacity 1 ex_two"
  using size_le_capacity [of 0 id ex_two 1] ex_two_reachable [of 0 id]
  by (simp add: GetSize_def GetCapacity_def ex_two_def)

subsection \<open>Appending to an empty vector\<close>

text \<open>
  Claim C3. Pushing the \<open>N > 0\<close> arguments \<open>xs\<close> one by one onto a default-constructed
  vector, each through the overload of \<open>PushBack\<close> that its kind selects,
  \<^verbatim>\<open>PushBack(const Type&)\<close> for an lvalue and \<^verbatim>\<open>PushBack(Type&&)\<close> for an rvalue, in any
  mixture, returns, with size \<open>N\<close>, the values in insertion order, and the capacity
  \<open>doubling N\<close> that the rule \<open>new_capacity = capacity == 0 ? 1 : capacity * 2\<close> gives; it
  is the first power of two that is at least \<open>N\<close>; and after each prefix of \<open>n\<close>
  arguments the capacity is \<open>doubling n\<close>. The bound on \<open>N\<close> says that the last array
  can be allocated.
\<close>

theorem PushBack_all_spec:
  assumes "xs \<noteq> []" and "length xs \<le> 2 ^ 62"
  shows "\<exists>s'. PushBack_all this xs (SimpleVector_default this s) = Inr s' \<and>
           GetSize this s' = length xs \<and>
           live this s' = map (Some \<circ> arg_value) xs \<and>
           GetCapacity this s' = doubling (length xs) \<and>
           (\<exists>k. GetCapacity this s' = 2 ^ k \<and> length xs \<le> 2 ^ k \<and> (\<forall>j<k. 2 ^ j < length xs)) \<and>
           (\<forall>n\<le>length xs. \<exists>sn. PushBack_all this (take n xs) (SimpleVector_default this s) = Inr sn \<and>
               GetSize this sn = n \<and> GetCapacity this sn = doubling n)"
proof -
  let ?s0 = "SimpleVector_default this s"
  have v0: "vecs ?s0 this = empty_vec" by (simp add: SimpleVector_default_def)
  have ok0: "vec_ok ?s0 (vecs ?s0 this)"
    using SimpleVector_default_updates[of this s] by (simp add: updates_def)
  have c0: "v_capacity (vecs ?s0 this) = doubling (v_size (vecs ?s0 this))"
    by (simp add: v0 empty_vec_def)
  have l0: "live this ?s0 = []" by (simp add: live_def contents_def v0 empty_vec_def)
  from assms have pos: "0 < length xs" by simp
  from doubling_pow2[OF pos] assms(2) have "doubling (length xs) < 2 ^ 63" by auto
  then have top: "doubling (length xs) \<le> max_slots" by (simp add: max_slots_val)
  have pre: "\<exists>sn. PushBack_all this (take n xs) ?s0 = Inr sn \<and>
               GetSize this sn = n \<and> GetCapacity this sn = doubling n \<and>
               live this sn = map (Some \<circ> arg_value) (take n xs)" if "n \<le> length xs" for n
  proof -
    have "doubling n \<le> max_slots" using doubling_mono[OF that] top by simp
    then have "doubling (v_size (vecs ?s0 this) + length (take n xs)) \<le> max_slots"
      using that by (simp add: v0 empty_vec_def min_def)
    from PushBack_all_result[OF ok0 c0 this] that show ?thesis
      by (auto simp: v0 l0 empty_vec_def GetSize_def GetCapacity_def min_def)
  qed
  from pre[of "length xs"] obtain s' where s': "PushBack_all this xs ?s0 = Inr s'"
    "GetSize this s' = length xs" "GetCapacity this s' = doubling (length xs)"
    "live this s' = map (Some \<circ> arg_value) xs" by auto
  from doubling_first_pow2[OF pos] s'(3)
  have "\<exists>k. GetCapacity this s' = 2 ^ k \<and> length xs \<le> 2 ^ k \<and> (\<forall>j<k. 2 ^ j < length xs)"
    by simp
  with s' pre show ?thesis by blast
qed

theorem PushBack_all_spec_witness:
  "[Lvalue 10, Rvalue 20, Rvalue (30 :: nat)] \<noteq> [] \<and>
   length [Lvalue 10, Rvalue 20, Rvalue (30 :: nat)] \<le> 2 ^ 62 \<and>
   (\<exists>s'. PushBack_all 0 [Lvalue 10, Rvalue 20, Rvalue (30 :: nat)]
           (SimpleVector_default 0 init_state) = Inr s' \<and>
      GetSize 0 s' = 3 \<and> live 0 s' = [Some 10, Some 20, Some (30 :: nat)] \<and> GetCapacity 0 s' = 4)"
  using PushBack_all_spec [of "[Lvalue 10, Rvalue 20, Rvalue (30 :: nat)]" 0 init_state]
  by clarsimp

subsection \<open>Reserve\<close>

text \<open>
  Claim C4. On a well-formed vector, \<open>Reserve n\<close> with \<open>n\<close> at most the capacity returns
  the state it was given: nothing is allocated and nothing changes. With \<open>n\<close> above
  the capacity (and an array of \<open>n\<close> slots allocatable) it returns with capacity
  exactly \<open>n\<close>, the same size and the same live slots in order. A request no
  allocation can satisfy throws.
\<close>

theorem Reserve_spec:
  assumes ok: "vec_ok s (vecs s this)"
  shows "(n \<le> GetCapacity this s \<longrightarrow> Reserve this n s = Inr s) \<and>
         (GetCapacity this s < n \<and> n \<le> max_slots \<longrightarrow>
            (\<exists>s'. Reserve this n s = Inr s' \<and>
                  GetCapacity this s' = n \<and>
                  GetSize this s' = GetSize this s \<and>
                  live this s' = live this s \<and>
                  vec_ok s' (vecs s' this))) \<and>
         (GetCapacity this s < n \<and> max_slots < n \<longrightarrow> Reserve this n s = Inl OutOfMemory)"
proof (intro conjI impI)
  assume "n \<le> GetCapacity this s"
  then show "Reserve this n s = Inr s" by (simp add: Reserve_def GetCapacity_def)
next
  assume "GetCapacity this s < n \<and> max_slots < n"
  then show "Reserve this n s = Inl OutOfMemory"
    by (simp add: Reserve_def GetCapacity_def ArrayPtr_new_def)
next
  assume "GetCapacity this s < n \<and> n \<le> max_slots"
  then have "v_capacity (vecs s this) < n" and "n \<le> max_slots"
    by (simp_all add: GetCapacity_def)
  with ok obtain s' where "Reserve this n s = Inr s'" "v_capacity (vecs s' this) = n"
    "v_size (vecs s' this) = v_size (vecs s this)" "live this s' = live this s"
    "vec_ok s' (vecs s' this)"
    by (rule Reserve_result)
  then show "\<exists>s'. Reserve this n s = Inr s' \<and>
                  GetCapacity this s' = n \<and>
                  GetSize this s' = GetSize this s \<and>
                  live this s' = live this s \<and>
                  vec_ok s' (vecs s' this)"
    by (auto simp: GetCapacity_def GetSize_def)
qed

theorem Reserve_spec_witness:
  "vec_ok ex_one (vecs ex_one 0) \<and> Reserve 0 2 ex_one = Inr ex_one \<and>
   GetCapacity 0 ex_one < 5 \<and> 5 \<le> max_slots \<and>
   (\<exists>s'. Reserve 0 5 ex_one = Inr s' \<and> GetCapacity 0 s' = 5 \<and> GetSize 0 s' = 3 \<and>
      live 0 s' = [Some 1, Some 2, Some 3])"
  using Reserve_spec [of ex_one 0 2] Reserve_spec [of ex_one 0 5]
  by (clarsimp simp: GetCapacity_def GetSize_def vec_ok_def max_slots_val ex_one_def live_def
      contents_def)

subsection \<open>Insert, then Erase\<close>

text \<open>
  Claim C7. On a well-formed vector, for a position \<open>begin() + n\<close> with \<open>n\<close> at most the
  size and a value \<open>val\<close> (and, when the vector is full, an array of twice the capacity
  allocatable): \<open>Insert\<close> returns the pointer to slot \<open>n\<close> of the array the vector has
  afterwards, which holds \<open>val\<close>; the live slots are the old ones with \<open>val\<close> put in
  at \<open>n\<close>. \<open>Erase\<close> at that pointer then returns the pointer to slot \<open>n\<close>, where the
  element that followed \<open>val\<close> now is (the end, if there was none), and the live slots
  and the size are those before the insertion. \<open>Insert\<close> is \<^verbatim>\<open>Insert(ConstIterator, Type&&)\<close>,
  the overload that can be instantiated.
\<close>

theorem Insert_Erase_inverse:
  assumes ok: "vec_ok s (vecs s this)" and n: "n \<le> GetSize this s"
    and room: "GetSize this s \<noteq> GetCapacity this s \<or> GetCapacity this s * 2 \<le> max_slots"
  shows "\<exists>p s1 q s2.
           Insert_move this (fst (begin_it this s), n) val s = Inr (p, s1) \<and>
           p = (fst (begin_it this s1), n) \<and>
           deref p s1 = Inr val \<and>
           live this s1 = take n (live this s) @ [Some val] @ drop n (live this s) \<and>
           GetSize this s1 = GetSize this s + 1 \<and>
           Erase this p s1 = Inr (q, s2) \<and>
           q = (fst (begin_it this s2), n) \<and>
           live this s2 = live this s \<and>
           GetSize this s2 = GetSize this s \<and>
           (n < GetSize this s \<longrightarrow> (\<exists>x. deref q s2 = Inr x \<and> live this s1 ! Suc n = Some x)) \<and>
           (n = GetSize this s \<longrightarrow> q = end_it this s2)"
proof -
  let ?v = "vecs s this"
  let ?L = "live this s"
  from n have n': "n \<le> v_size ?v" by (simp add: GetSize_def)
  from room have room': "v_size ?v \<noteq> v_capacity ?v \<or> v_capacity ?v * 2 \<le> max_slots"
    by (simp add: GetSize_def GetCapacity_def)
  have len: "length ?L = v_size ?v" using ok by (simp add: live_def contents_length)
  from Insert_move_result[OF ok n' room', of val] obtain s1 where
    i: "Insert_move this (v_data_ptr ?v, n) val s = Inr ((v_data_ptr (vecs s1 this), n), s1)"
    and l1: "live this s1 = take n ?L @ [Some val] @ drop n ?L"
    and z1: "v_size (vecs s1 this) = v_size ?v + 1"
    and ok1: "vec_ok s1 (vecs s1 this)" by blast
  have at_n: "live this s1 ! n = Some val"
    using l1 n' len by (simp add: nth_append)
  have n1: "n < v_size (vecs s1 this)" using z1 n' by simp
  have d1: "deref (v_data_ptr (vecs s1 this), n) s1 = Inr val"
    using ok1 n1 at_n by (rule deref_live)
  from Erase_result[OF ok1 n1] obtain s2 where
    e: "Erase this (v_data_ptr (vecs s1 this), n) s1 = Inr ((v_data_ptr (vecs s1 this), n), s2)"
    and l2: "live this s2 = take n (live this s1) @ drop (Suc n) (live this s1)"
    and z2: "v_size (vecs s2 this) = v_size (vecs s1 this) - 1"
    and p2: "v_data_ptr (vecs s2 this) = v_data_ptr (vecs s1 this)"
    and ok2: "vec_ok s2 (vecs s2 this)" by blast
  have restored: "live this s2 = ?L"
    using l2 l1 n' len by simp
  have follow: "\<exists>x. deref (v_data_ptr (vecs s1 this), n) s2 = Inr x \<and> live this s1 ! Suc n = Some x"
    if lt: "n < v_size ?v"
  proof -
    have "live this s1 ! Suc n = ?L ! n"
      using l1 n' len lt by (simp add: nth_append)
    moreover have "?L ! n \<in> set ?L" using lt len by simp
    moreover have "None \<notin> set ?L" using ok by (simp add: live_def contents_None)
    ultimately obtain x where x: "?L ! n = Some x" "live this s1 ! Suc n = Some x"
      by (cases "?L ! n") auto
    have "n < v_size (vecs s2 this)" using z2 z1 lt by simp
    moreover have "live this s2 ! n = Some x" using restored x by simp
    ultimately have "deref (v_data_ptr (vecs s2 this), n) s2 = Inr x"
      using ok2 by (intro deref_live)
    with x p2 show ?thesis by simp
  qed
  show ?thesis
    using i d1 l1 z1 e p2 restored z2 follow
    by (simp add: begin_it_def end_it_def GetSize_def)
qed

theorem Insert_Erase_inverse_witness:
  "vec_ok ex_one (vecs ex_one 0) \<and> 1 \<le> GetSize 0 ex_one \<and>
   GetCapacity 0 ex_one * 2 \<le> max_slots \<and>
   (\<exists>p s1 q s2. Insert_move 0 (Some 0, 1) 9 ex_one = Inr (p, s1) \<and> deref p s1 = Inr 9 \<and>
      live 0 s1 = [Some 1, Some 9, Some 2, Some 3] \<and>
      Erase 0 p s1 = Inr (q, s2) \<and> live 0 s2 = [Some 1, Some 2, Some 3] \<and> GetSize 0 s2 = 3)"
  using Insert_Erase_inverse [of ex_one 0 1 9]
  by (clarsimp simp: vec_ok_def max_slots_val GetSize_def GetCapacity_def begin_it_def ex_one_def
      live_def contents_def)

subsection \<open>The copy constructor\<close>

text \<open>
  Claim C8. In a well-formed state, copy construction at \<open>this\<close> from another object
  \<open>other\<close> returns. The copy equals \<open>other\<close> under \<open>operator==\<close>: same size, same live
  slots in order. Its capacity is \<open>other\<close>'s size. It shares no array with \<open>other\<close>,
  which is unchanged; and whatever sequence of operations is then applied to the copy
  or to any object but \<open>other\<close>, the members and the live slots of \<open>other\<close> stay what
  they were.
\<close>

theorem copy_spec:
  assumes ok: "state_ok s" and ne: "this \<noteq> other"
  shows "\<exists>s1. SimpleVector_copy this other s = Inr s1 \<and>
           op_eq this other s1 = Inr True \<and>
           GetSize this s1 = GetSize other s1 \<and>
           live this s1 = live other s1 \<and>
           GetCapacity this s1 = GetSize other s \<and>
           vecs s1 other = vecs s other \<and> live other s1 = live other s \<and>
           (v_data_ptr (vecs s1 this) = None \<or>
            v_data_ptr (vecs s1 this) \<noteq> v_data_ptr (vecs s1 other)) \<and>
           (\<forall>ops s2. (\<forall>x\<in>set ops. other \<notin> set (objects x)) \<and> run dflt moved ops s1 = Inr s2 \<longrightarrow>
               vecs s2 other = vecs s other \<and> live other s2 = live other s)"
proof -
  let ?o = "vecs s other"
  have oko: "vec_ok s ?o" using ok by (rule state_ok_vec)
  from copy_construct_result[OF oko] obtain new_ptr s0 where
    cc: "copy_construct ?o s = Inr (\<lparr>v_data_ptr = new_ptr, v_size = v_size ?o,
        v_capacity = v_size ?o\<rparr>, s0)"
    and c0: "contents \<lparr>v_data_ptr = new_ptr, v_size = v_size ?o, v_capacity = v_size ?o\<rparr> s0
           = contents ?o s"
    and fresh: "new_ptr = None \<or> new_ptr = Some (next_addr s)"
    by blast
  let ?v = "\<lparr>v_data_ptr = new_ptr, v_size = v_size ?o, v_capacity = v_size ?o\<rparr>"
  let ?s1 = "set_vec this ?v s0"
  have r: "SimpleVector_copy this other s = Inr ?s1"
    using cc by (simp add: SimpleVector_copy_def)
  have u: "updates this s ?s1" using r by (rule SimpleVector_copy_updates)
  have ok1: "state_ok ?s1" using ok u by (rule state_ok_updates)
  from updates_other[OF ok u, of other] ne
  have o1: "vecs ?s1 other = ?o" and lo: "live other ?s1 = live other s" by simp_all
  have lt: "live this ?s1 = live other s" using c0 by (simp add: live_def)
  have eq: "op_eq this other ?s1 = Inr True"
    using op_eq_live[OF state_ok_vec[OF ok1, of this] state_ok_vec[OF ok1, of other]] lt lo
    by simp
  have ptr: "v_data_ptr (vecs ?s1 this) = None \<or>
            v_data_ptr (vecs ?s1 this) \<noteq> v_data_ptr (vecs ?s1 other)"
  proof (cases "v_data_ptr (vecs ?s1 this)")
    case None
    then show ?thesis by (rule disjI1)
  next
    case (Some a)
    have "v_data_ptr (vecs ?s1 other) \<noteq> Some a"
    proof
      assume "v_data_ptr (vecs ?s1 other) = Some a"
      with Some ok1 have "this = other" unfolding state_ok_def by blast
      with ne show False by simp
    qed
    with Some show ?thesis by simp
  qed
  have later: "\<forall>ops s2. (\<forall>x\<in>set ops. other \<notin> set (objects x)) \<and> run dflt moved ops ?s1 = Inr s2 \<longrightarrow>
               vecs s2 other = vecs s other \<and> live other s2 = live other s"
  proof (intro allI impI)
    fix ops s2
    assume a: "(\<forall>x\<in>set ops. other \<notin> set (objects x)) \<and> run dflt moved ops ?s1 = Inr s2"
    then have "run dflt moved ops ?s1 = Inr s2" and "\<forall>x\<in>set ops. other \<notin> set (objects x)"
      by blast+
    from run_other[OF ok1 this] have "vecs s2 other = vecs ?s1 other" "live other s2 = live other ?s1"
      by blast+
    with o1 lo show "vecs s2 other = vecs s other \<and> live other s2 = live other s"
      by (simp only:)
  qed
  have sz: "GetSize this ?s1 = GetSize other ?s1"
    using o1 by (simp add: GetSize_def)
  have cp: "GetCapacity this ?s1 = GetSize other s"
    by (simp add: GetSize_def GetCapacity_def)
  have ll: "live this ?s1 = live other ?s1" using lt lo by (simp only:)
  from r eq sz ll cp o1 lo ptr later show ?thesis by blast
qed

theorem copy_spec_witness:
  "state_ok ex_one \<and> (1::nat) \<noteq> 0 \<and>
   (\<exists>s1. SimpleVector_copy 1 0 ex_one = Inr s1 \<and> op_eq 1 0 s1 = Inr True \<and>
      live 1 s1 = [Some 1, Some 2, Some 3] \<and> GetCapacity 1 s1 = 3 \<and>
      run 0 id [Call_Clear 1] s1 = Inr (Clear 1 s1) \<and>
      live 0 (Clear 1 s1) = [Some 1, Some 2, Some 3])"
proof -
  have ok: "state_ok ex_one" using ex_one_reachable by (rule reachable_state_ok)
  have l: "live 0 ex_one = [Some 1, Some 2, Some 3]" "GetSize 0 ex_one = 3"
    by (simp_all add: ex_one_def live_def contents_def GetSize_def)
  from copy_spec [OF ok, of 1 0 0 id] obtain s1 where
    1: "SimpleVector_copy 1 0 ex_one = Inr s1" "op_eq 1 0 s1 = Inr True"
      "live 1 s1 = live 0 s1" "live 0 s1 = live 0 ex_one" "GetCapacity 1 s1 = GetSize 0 ex_one"
    and 2: "\<And>ops s2. (\<forall>x\<in>set ops. 0 \<notin> set (objects x)) \<and> run 0 id ops s1 = Inr s2 \<Longrightarrow>
               live 0 s2 = live 0 ex_one"
    by auto
  have "run 0 id [Call_Clear 1] s1 = Inr (Clear 1 s1)" by simp
  moreover from this have "live 0 (Clear 1 s1) = live 0 ex_one"
    using 2[of "[Call_Clear 1]" "Clear 1 s1"] by simp
  ultimately show ?thesis using ok 1 l by auto
qed

end
